theory Spec2Isabelle
  imports Complex_Main "HOL-Library.Char_ord" "HOL-Library.List_Lexorder" "HOL-Library.Product_Lexorder"
    "HOL-Library.Multiset"
begin

section \<open>The 3D placement algorithm: data model\<close>

text \<open>
  The development follows \<^verbatim>\<open>src/backend/utils/3d_placement_algorithm.py\<close>: the classes
  \<^verbatim>\<open>Item\<close>, \<^verbatim>\<open>Container\<close> and \<^verbatim>\<open>ThreeDimensionalPacking\<close>.

  Python floats are modelled by exact rationals: a dimension, a volume and a real-unit
  position are values of type \<^typ>\<open>rat\<close>, so that rounding of the floating-point unit is
  outside the model. Grid coordinates are Python's unbounded integers, type \<^typ>\<open>int\<close>.
  Printing (the progress lines of the search and the debug trace) has no effect on any
  value computed and is left out.
\<close>

type_synonym cell = "int \<times> int \<times> int"

type_synonym rpos = "rat \<times> rat \<times> rat"

datatype py_error = IndexError | ZeroDivisionError

record Item =
  item_id :: string
  name :: string
  width :: rat
  depth :: rat
  height :: rat
  volume :: rat
  mass :: rat
  priority :: int
  expiry_date :: string
  preferred_zone :: "string option"
  position :: "rpos option"

text \<open>
  \<^verbatim>\<open>Item.__init__\<close>: the dimensions are clamped to at least 1.0, the mass to at least
  0.1, and the position starts as \<^verbatim>\<open>None\<close>.
\<close>

definition mk_Item ::
  "string \<Rightarrow> string \<Rightarrow> rat \<Rightarrow> rat \<Rightarrow> rat \<Rightarrow> rat \<Rightarrow> int \<Rightarrow> string \<Rightarrow> string option \<Rightarrow> Item" where
  "mk_Item iid nm w d h m p e z =
     \<lparr>item_id = iid, name = nm,
      width = max w 1, depth = max d 1, height = max h 1,
      volume = max w 1 * max d 1 * max h 1,
      mass = max m (1 / 10), priority = p, expiry_date = e,
      preferred_zone = z, position = None\<rparr>"

text \<open>
  \<^verbatim>\<open>Container.__init__\<close> sets \<^verbatim>\<open>self.resolution = 10\<close> for every container and nothing
  assigns the attribute afterwards, so the resolution is the constant 10.
\<close>

definition resolution :: int where
  "resolution = 10"

text \<open>
  The occupancy grid \<^verbatim>\<open>self.space\<close> is a boolean numpy array; it is modelled by the set
  of its cells that hold \<^verbatim>\<open>True\<close>. Its shape is fixed by the container's dimensions
  (see \<open>width_cells\<close> below), which never change after construction.
\<close>

record Container =
  container_id :: string
  c_width :: rat
  c_depth :: rat
  c_height :: rat
  c_volume :: rat
  zone :: string
  available_volume :: rat
  items :: "Item list"
  space :: "cell set"

definition mk_Container :: "string \<Rightarrow> rat \<Rightarrow> rat \<Rightarrow> rat \<Rightarrow> string \<Rightarrow> Container" where
  "mk_Container cid w d h z =
     \<lparr>container_id = cid,
      c_width = max w 1, c_depth = max d 1, c_height = max h 1,
      c_volume = max w 1 * max d 1 * max h 1,
      zone = z,
      available_volume = max w 1 * max d 1 * max h 1,
      items = [], space = {}\<rparr>"

text \<open>Python's \<^verbatim>\<open>int(x)\<close> on a float truncates towards zero.\<close>

definition py_int :: "rat \<Rightarrow> int" where
  "py_int x = (if 0 \<le> x then \<lfloor>x\<rfloor> else \<lceil>x\<rceil>)"

text \<open>Python's \<^verbatim>\<open>range(a, b)\<close>.\<close>

definition py_range :: "int \<Rightarrow> int \<Rightarrow> int list" where
  "py_range a b = [a..b - 1]"

text \<open>The shape of \<^verbatim>\<open>self.space\<close>, as \<^verbatim>\<open>np.zeros\<close> receives it in the constructor.\<close>

definition width_cells :: "Container \<Rightarrow> int" where
  "width_cells c = py_int (c_width c * of_int resolution)"

definition depth_cells :: "Container \<Rightarrow> int" where
  "depth_cells c = py_int (c_depth c * of_int resolution)"

definition height_cells :: "Container \<Rightarrow> int" where
  "height_cells c = py_int (c_height c * of_int resolution)"

text \<open>The item's extent in cells: \<^verbatim>\<open>int(item.width * self.resolution)\<close> and so on.\<close>

definition item_width :: "Item \<Rightarrow> int" where
  "item_width i = py_int (width i * of_int resolution)"

definition item_depth :: "Item \<Rightarrow> int" where
  "item_depth i = py_int (depth i * of_int resolution)"

definition item_height :: "Item \<Rightarrow> int" where
  "item_height i = py_int (height i * of_int resolution)"

text \<open>
  A slice \<^verbatim>\<open>a:b\<close> of an axis of length \<open>n\<close>: a negative bound counts from the end, and
  both bounds are clipped to the axis.
\<close>

definition slice_bound :: "int \<Rightarrow> int \<Rightarrow> int" where
  "slice_bound n v = (if v < 0 then max (v + n) 0 else min v n)"

definition py_slice :: "int \<Rightarrow> int \<Rightarrow> int \<Rightarrow> int set" where
  "py_slice n a b = {slice_bound n a ..< slice_bound n b}"

text \<open>The cells selected by \<^verbatim>\<open>self.space[x:x+w, y:y+d, z:z+h]\<close>.\<close>

definition slice3 :: "Container \<Rightarrow> cell \<Rightarrow> int \<Rightarrow> int \<Rightarrow> int \<Rightarrow> cell set" where
  "slice3 c pos w d h = (case pos of (x, y, z) \<Rightarrow>
     py_slice (width_cells c) x (x + w) \<times>
     py_slice (depth_cells c) y (y + d) \<times>
     py_slice (height_cells c) z (z + h))"

section \<open>Container operations\<close>

definition is_position_valid :: "Container \<Rightarrow> Item \<Rightarrow> cell \<Rightarrow> bool" where
  "is_position_valid c i pos = (case pos of (x, y, z) \<Rightarrow>
     if x < 0 \<or> y < 0 \<or> z < 0 \<or>
        of_int x + width i * of_int resolution > c_width c * of_int resolution \<or>
        of_int y + depth i * of_int resolution > c_depth c * of_int resolution \<or>
        of_int z + height i * of_int resolution > c_height c * of_int resolution
     then False
     else space c \<inter> slice3 c (x, y, z) (item_width i) (item_depth i) (item_height i) = {})"

text \<open>
  \<^verbatim>\<open>place_item\<close> mutates the container and the item; the model returns the flag
  together with the container and the item as they are after the call.
\<close>

definition place_item :: "Container \<Rightarrow> Item \<Rightarrow> cell \<Rightarrow> bool \<times> Container \<times> Item" where
  "place_item c i pos =
     (if \<not> is_position_valid c i pos then (False, c, i)
      else (case pos of (x, y, z) \<Rightarrow>
        let i' = i\<lparr>position :=
                   Some (of_int x / of_int resolution,
                         of_int y / of_int resolution,
                         of_int z / of_int resolution)\<rparr>
        in (True,
            c\<lparr>space := space c \<union> slice3 c (x, y, z) (item_width i) (item_depth i) (item_height i),
              items := items c @ [i'],
              available_volume := available_volume c - volume i\<rparr>,
            i')))"

text \<open>What the constructors guarantee of an item and of a container.\<close>

definition item_ok :: "Item \<Rightarrow> bool" where
  "item_ok i = (1 \<le> width i \<and> 1 \<le> depth i \<and> 1 \<le> height i)"

text \<open>The block of cells with corner \<open>(x, y, z)\<close> and extent \<open>w\<close>, \<open>d\<close>, \<open>h\<close>.\<close>

definition cells :: "cell \<Rightarrow> int \<Rightarrow> int \<Rightarrow> int \<Rightarrow> cell set" where
  "cells pos w d h = (case pos of (x, y, z) \<Rightarrow>
     {x ..< x + w} \<times> {y ..< y + d} \<times> {z ..< z + h})"

section \<open>Placement search\<close>

text \<open>
  Reading \<^verbatim>\<open>container.space[sx, sy, k]\<close>: numpy raises \<^verbatim>\<open>IndexError\<close> for an index
  outside \<open>-n \<le> v < n\<close> on an axis of length \<open>n\<close>, and a negative index counts from
  the end.
\<close>

definition np_index :: "int \<Rightarrow> int \<Rightarrow> py_error + int" where
  "np_index n v =
     (if v < - n \<or> n \<le> v then Inl IndexError else Inr (if v < 0 then v + n else v))"

definition space_get :: "Container \<Rightarrow> cell \<Rightarrow> py_error + bool" where
  "space_get c idx = (case idx of (a, b, k) \<Rightarrow>
     (case np_index (width_cells c) a of Inl e \<Rightarrow> Inl e | Inr a' \<Rightarrow>
     (case np_index (depth_cells c) b of Inl e \<Rightarrow> Inl e | Inr b' \<Rightarrow>
     (case np_index (height_cells c) k of Inl e \<Rightarrow> Inl e | Inr k' \<Rightarrow>
        Inr ((a', b', k') \<in> space c)))))"

text \<open>
  The loop that counts supported cells: \<^verbatim>\<open>support_count\<close> is the accumulator, the list
  holds the pairs \<^verbatim>\<open>(sx, sy)\<close> still to visit, and the read of the grid happens only
  when the three guards before it hold (Python's \<^verbatim>\<open>and\<close> is short-circuit).
\<close>

fun count_support :: "Container \<Rightarrow> int \<Rightarrow> (int \<times> int) list \<Rightarrow> nat \<Rightarrow> py_error + nat" where
  "count_support c z [] n = Inr n"
| "count_support c z ((sx, sy) # rest) n =
     (if sx < width_cells c \<and> sy < depth_cells c \<and> z > 0 then
        (case space_get c (sx, sy, z - 1) of
           Inl e \<Rightarrow> Inl e
         | Inr b \<Rightarrow> count_support c z rest (if b then n + 1 else n))
      else count_support c z rest n)"

text \<open>The footprint visited by the two nested \<^verbatim>\<open>for sx\<close>, \<^verbatim>\<open>for sy\<close> loops.\<close>

definition footprint :: "Item \<Rightarrow> cell \<Rightarrow> (int \<times> int) list" where
  "footprint i pos = (case pos of (x, y, z) \<Rightarrow>
     List.product (py_range x (x + item_width i)) (py_range y (y + item_depth i)))"

text \<open>\<^verbatim>\<open>required_support = (item_width * item_depth) * 0.5\<close>.\<close>

definition required_support :: "Item \<Rightarrow> rat" where
  "required_support i = of_int (item_width i * item_depth i) * (1 / 2)"

definition has_support :: "Container \<Rightarrow> Item \<Rightarrow> cell \<Rightarrow> py_error + bool" where
  "has_support c i pos = (case pos of (x, y, z) \<Rightarrow>
     (case count_support c z (footprint i pos) 0 of
        Inl e \<Rightarrow> Inl e
      | Inr n \<Rightarrow> Inr (of_nat n \<ge> required_support i)))"

text \<open>
  \<^verbatim>\<open>y_range\<close>: the range sorted ascending for a priority above 5 and descending
  otherwise (the elements of a range are distinct, so the descending sort is the
  reverse of the ascending one).
\<close>

definition y_range :: "Container \<Rightarrow> Item \<Rightarrow> int list" where
  "y_range c i =
     (if priority i > 5
      then sort (py_range 0 (depth_cells c - item_depth i + 1))
      else rev (sort (py_range 0 (depth_cells c - item_depth i + 1))))"

definition x_range :: "Container \<Rightarrow> Item \<Rightarrow> int list" where
  "x_range c i = py_range 0 (width_cells c - item_width i + 1)"

definition z_range :: "Container \<Rightarrow> Item \<Rightarrow> int list" where
  "z_range c i = py_range 1 (height_cells c - item_height i + 1)"

text \<open>The corners the floor pass visits, in the order of its nested loops.\<close>

definition floor_candidates :: "Container \<Rightarrow> Item \<Rightarrow> cell list" where
  "floor_candidates c i = map (\<lambda>(x, y). (x, y, 0)) (List.product (x_range c i) (y_range c i))"

text \<open>The corners the stacking pass visits: x outer, then y, then z innermost.\<close>

definition stacking_candidates :: "Container \<Rightarrow> Item \<Rightarrow> cell list" where
  "stacking_candidates c i =
     List.product (x_range c i) (List.product (y_range c i) (z_range c i))"

fun stacking_pass :: "Container \<Rightarrow> Item \<Rightarrow> cell list \<Rightarrow> py_error + cell option" where
  "stacking_pass c i [] = Inr None"
| "stacking_pass c i (p # ps) =
     (if is_position_valid c i p then
        (case has_support c i p of
           Inl e \<Rightarrow> Inl e
         | Inr s \<Rightarrow> if s then Inr (Some p) else stacking_pass c i ps)
      else stacking_pass c i ps)"

definition find_bottom_left_back_position :: "Container \<Rightarrow> Item \<Rightarrow> py_error + cell option" where
  "find_bottom_left_back_position c i =
     (case List.find (is_position_valid c i) (floor_candidates c i) of
        Some p \<Rightarrow> Inr (Some p)
      | None \<Rightarrow> stacking_pass c i (stacking_candidates c i))"

section \<open>Packing orchestrator\<close>

record placement =
  p_item_id :: string
  p_container_id :: string
  p_position :: rpos
  p_dimensions :: rpos

record unplaced =
  u_item_id :: string
  u_reason :: string

record container_stat =
  s_container_id :: string
  s_zone :: string
  s_items_placed :: nat
  s_volume_utilization :: rat
  s_available_volume :: rat
  s_total_volume :: rat

record results =
  successful_placements :: "placement list"
  unplaced_items :: "unplaced list"
  container_stats :: "container_stat list"

record ThreeDimensionalPacking =
  containers :: "Container list"
  pk_items :: "Item list"
  debug :: bool
  enforce_zones :: bool

text \<open>
  The constructor sorts the items by \<^verbatim>\<open>(-priority, expiry_date)\<close>; Python's \<^verbatim>\<open>sorted\<close>
  is stable, as \<^const>\<open>sort_key\<close> is, and compares tuples and strings lexicographically.
  (The attribute \<^verbatim>\<open>placements\<close> is never read and is left out.)
\<close>

definition sort_items :: "Item list \<Rightarrow> Item list" where
  "sort_items its = sort_key (\<lambda>x. (- priority x, expiry_date x)) its"

definition mk_ThreeDimensionalPacking ::
  "Container list \<Rightarrow> Item list \<Rightarrow> bool \<Rightarrow> bool \<Rightarrow> ThreeDimensionalPacking" where
  "mk_ThreeDimensionalPacking cs its dbg ez =
     \<lparr>containers = cs, pk_items = sort_items its, debug = dbg, enforce_zones = ez\<rparr>"

text \<open>The bounds test of the pre-assigned path, in real units.\<close>

definition position_fits :: "Container \<Rightarrow> Item \<Rightarrow> rpos \<Rightarrow> bool" where
  "position_fits c i p = (case p of (px, py, pz) \<Rightarrow>
     px \<ge> 0 \<and> px + width i \<le> c_width c \<and>
     py \<ge> 0 \<and> py + depth i \<le> c_depth c \<and>
     pz \<ge> 0 \<and> pz + height i \<le> c_height c)"

text \<open>
  Containers are shared mutable objects; the model keeps them in one list and refers to
  them by index. \<open>find_container\<close> is the loop of the pre-assigned path: the first
  container, in list order, that passes the bounds test.
\<close>

definition find_container :: "Container list \<Rightarrow> Item \<Rightarrow> rpos \<Rightarrow> nat option" where
  "find_container cs i p = List.find (\<lambda>k. position_fits (cs ! k) i p) [0..<length cs]"

definition zone_matches :: "Container \<Rightarrow> Item \<Rightarrow> bool" where
  "zone_matches c i = (Some (zone c) = preferred_zone i)"

definition matching_containers :: "bool \<Rightarrow> Container list \<Rightarrow> Item \<Rightarrow> nat list" where
  "matching_containers ez cs i =
     (if ez then filter (\<lambda>k. zone_matches (cs ! k) i) [0..<length cs]
      else sort_key (\<lambda>k. if zone_matches (cs ! k) i then 0 else 1 :: nat) [0..<length cs])"

definition mk_placement :: "Item \<Rightarrow> Container \<Rightarrow> rpos \<Rightarrow> placement" where
  "mk_placement i c p =
     \<lparr>p_item_id = item_id i, p_container_id = container_id c,
      p_position = p, p_dimensions = (width i, depth i, height i)\<rparr>"

definition grid_to_real :: "cell \<Rightarrow> rpos" where
  "grid_to_real pos = (case pos of (x, y, z) \<Rightarrow>
     (of_int x / of_int resolution, of_int y / of_int resolution, of_int z / of_int resolution))"

text \<open>
  The loop over the candidate containers. It returns the containers as they are after
  the loop and the success entry, if the item was placed.
\<close>

fun try_containers ::
  "bool \<Rightarrow> Item \<Rightarrow> Container list \<Rightarrow> nat list \<Rightarrow> py_error + (Container list \<times> placement option)" where
  "try_containers ez i cs [] = Inr (cs, None)"
| "try_containers ez i cs (k # ks) =
     (if ez \<and> \<not> zone_matches (cs ! k) i then try_containers ez i cs ks
      else if width i > c_width (cs ! k) \<or> depth i > c_depth (cs ! k) \<or>
              height i > c_height (cs ! k)
      then try_containers ez i cs ks
      else (case find_bottom_left_back_position (cs ! k) i of
         Inl e \<Rightarrow> Inl e
       | Inr None \<Rightarrow> try_containers ez i cs ks
       | Inr (Some pos) \<Rightarrow>
           (case place_item (cs ! k) i pos of
              (True, c', i') \<Rightarrow>
                Inr (cs[k := c'], Some (mk_placement i (cs ! k) (grid_to_real pos)))
            | (False, c', i') \<Rightarrow> try_containers ez i cs ks)))"

definition zone_text :: "Item \<Rightarrow> string" where
  "zone_text i = (case preferred_zone i of None \<Rightarrow> ''None'' | Some z \<Rightarrow> z)"

definition add_success :: "results \<Rightarrow> placement \<Rightarrow> results" where
  "add_success r e = r\<lparr>successful_placements := successful_placements r @ [e]\<rparr>"

definition add_unplaced :: "results \<Rightarrow> Item \<Rightarrow> string \<Rightarrow> results" where
  "add_unplaced r i why =
     r\<lparr>unplaced_items := unplaced_items r @ [\<lparr>u_item_id = item_id i, u_reason = why\<rparr>]\<rparr>"

definition attach_item :: "Container \<Rightarrow> Item \<Rightarrow> Container" where
  "attach_item c i = c\<lparr>items := items c @ [i]\<rparr>"

text \<open>The part of the loop body after the pre-assigned path (source lines 229 to 311).\<close>

definition search_placement ::
  "bool \<Rightarrow> Container list \<times> results \<Rightarrow> Item \<Rightarrow> py_error + (Container list \<times> results)" where
  "search_placement ez st i = (case st of (cs, r) \<Rightarrow>
     let matching = matching_containers ez cs i in
     if ez \<and> matching = [] then
       Inr (cs, add_unplaced r i (''No containers available with matching zone '' @ zone_text i))
     else (case try_containers ez i cs matching of
        Inl e \<Rightarrow> Inl e
      | Inr (cs', Some e) \<Rightarrow> Inr (cs', add_success r e)
      | Inr (cs', None) \<Rightarrow>
          Inr (cs', add_unplaced r i
            (if ez \<and> matching = []
             then ''No containers available with matching zone '' @ zone_text i
             else ''No suitable position found''))))"

text \<open>One iteration of the loop over the sorted items.\<close>

definition pack_item ::
  "bool \<Rightarrow> Container list \<times> results \<Rightarrow> Item \<Rightarrow> py_error + (Container list \<times> results)" where
  "pack_item ez st i = (case st of (cs, r) \<Rightarrow>
     (case position i of
        None \<Rightarrow> search_placement ez (cs, r) i
      | Some p \<Rightarrow>
          (case find_container cs i p of
             Some k \<Rightarrow>
               Inr (cs[k := attach_item (cs ! k) i], add_success r (mk_placement i (cs ! k) p))
           | None \<Rightarrow> search_placement ez (cs, r) i)))"

fun pack_loop ::
  "bool \<Rightarrow> Container list \<times> results \<Rightarrow> Item list \<Rightarrow> py_error + (Container list \<times> results)" where
  "pack_loop ez st [] = Inr st"
| "pack_loop ez st (i # its) =
     (case pack_item ez st i of Inl e \<Rightarrow> Inl e | Inr st' \<Rightarrow> pack_loop ez st' its)"

text \<open>
  The statistics of one container; the division raises \<^verbatim>\<open>ZeroDivisionError\<close> on a
  container of volume zero.
\<close>

definition container_stat_of :: "Container \<Rightarrow> py_error + container_stat" where
  "container_stat_of c =
     (if c_volume c = 0 then Inl ZeroDivisionError
      else Inr \<lparr>s_container_id = container_id c, s_zone = zone c,
                s_items_placed = length (items c),
                s_volume_utilization = (1 - available_volume c / c_volume c) * 100,
                s_available_volume = available_volume c,
                s_total_volume = c_volume c\<rparr>)"

fun container_statistics :: "Container list \<Rightarrow> py_error + container_stat list" where
  "container_statistics [] = Inr []"
| "container_statistics (c # cs) =
     (case container_stat_of c of
        Inl e \<Rightarrow> Inl e
      | Inr s \<Rightarrow> (case container_statistics cs of Inl e \<Rightarrow> Inl e | Inr ss \<Rightarrow> Inr (s # ss)))"

text \<open>
  \<^verbatim>\<open>pack_items\<close> returns the result record; the model returns with it the containers
  as the run leaves them.
\<close>

definition pack_items :: "ThreeDimensionalPacking \<Rightarrow> py_error + (Container list \<times> results)" where
  "pack_items p =
     (case pack_loop (enforce_zones p)
             (containers p,
              \<lparr>successful_placements = [], unplaced_items = [], container_stats = []\<rparr>)
             (pk_items p) of
        Inl e \<Rightarrow> Inl e
      | Inr (cs, r) \<Rightarrow>
          (case container_statistics cs of
             Inl e \<Rightarrow> Inl e
           | Inr ss \<Rightarrow> Inr (cs, r\<lparr>container_stats := ss\<rparr>)))"

section \<open>Notions used to state the properties of the search\<close>

text \<open>
  The order in which the floor pass visits the corners \<open>(x, y)\<close>: x ascending in the outer
  loop; in the inner loop y ascending for a priority above 5 and descending otherwise.
\<close>

definition floor_before :: "Item \<Rightarrow> int \<times> int \<Rightarrow> int \<times> int \<Rightarrow> bool" where
  "floor_before i p q = (case p of (x, y) \<Rightarrow> case q of (x', y') \<Rightarrow>
     x < x' \<or> (x = x' \<and> (if priority i > 5 then y < y' else y' < y)))"

text \<open>
  The number of occupied cells in the layer directly below the item's footprint, for an
  item with its corner at \<open>(x, y, z)\<close>.
\<close>

definition occupied_below :: "Container \<Rightarrow> Item \<Rightarrow> cell \<Rightarrow> nat" where
  "occupied_below c i pos = (case pos of (x, y, z) \<Rightarrow>
     card (Set.filter (\<lambda>(sx, sy). (sx, sy, z - 1) \<in> space c)
       ({x ..< x + item_width i} \<times> {y ..< y + item_depth i})))"

text \<open>The support condition: at least half of the footprint's cells rest on occupied cells.\<close>

definition supported :: "Container \<Rightarrow> Item \<Rightarrow> cell \<Rightarrow> bool" where
  "supported c i pos = (2 * int (occupied_below c i pos) \<ge> item_width i * item_depth i)"

section \<open>Notions used to state the properties of a run\<close>

text \<open>A container as the constructor builds it.\<close>

definition fresh_container :: "Container \<Rightarrow> bool" where
  "fresh_container c =
     (c = mk_Container (container_id c) (c_width c) (c_depth c) (c_height c) (zone c))"

text \<open>The container after a successful \<open>place_item\<close> at a valid corner.\<close>

definition placed_container :: "Container \<Rightarrow> Item \<Rightarrow> cell \<Rightarrow> Container" where
  "placed_container c i pos =
     c\<lparr>space := space c \<union> cells pos (item_width i) (item_depth i) (item_height i),
       items := items c @ [i\<lparr>position := Some (grid_to_real pos)\<rparr>],
       available_volume := available_volume c - volume i\<rparr>"

text \<open>
  The container a pre-assigned item is attached to: none for an item without a position
  or with a position that no container's bounds contain.
\<close>

definition preassigned_target :: "Container list \<Rightarrow> Item \<Rightarrow> nat option" where
  "preassigned_target cs i =
     (case position i of None \<Rightarrow> None | Some p \<Rightarrow> find_container cs i p)"

text \<open>
  The cell range of an item of a placed-items list: its position brought back to grid
  cells at the resolution, and its extent in cells.
\<close>

definition item_cells :: "Item \<Rightarrow> cell set" where
  "item_cells i = (case position i of
       None \<Rightarrow> {}
     | Some (px, py, pz) \<Rightarrow>
         cells (py_int (px * of_int resolution), py_int (py * of_int resolution),
                py_int (pz * of_int resolution))
           (item_width i) (item_depth i) (item_height i))"

fun pairwise_disjoint :: "cell set list \<Rightarrow> bool" where
  "pairwise_disjoint [] = True"
| "pairwise_disjoint (A # As) = ((\<forall>B\<in>set As. A \<inter> B = {}) \<and> pairwise_disjoint As)"

text \<open>No two entries of the container's placed-items list have intersecting cell ranges.\<close>

definition no_overlap :: "Container \<Rightarrow> bool" where
  "no_overlap c = pairwise_disjoint (map item_cells (items c))"

text \<open>
  The entries of a container's list that are not among the input items attached by the
  pre-assigned path.
\<close>

definition search_placed :: "Container list \<Rightarrow> Item list \<Rightarrow> Container \<Rightarrow> Item list" where
  "search_placed cs its c =
     filter (\<lambda>j. j \<notin> set (filter (\<lambda>i. preassigned_target cs i \<noteq> None) its)) (items c)"

text \<open>Volume conservation of one container.\<close>

definition volume_conserved :: "Container \<Rightarrow> bool" where
  "volume_conserved c =
     (available_volume c + sum_list (map volume (items c)) = c_volume c)"

text \<open>The volume of the input items that the pre-assigned path attaches to container \<open>k\<close>.\<close>

definition attached_volume :: "Container list \<Rightarrow> Item list \<Rightarrow> nat \<Rightarrow> rat" where
  "attached_volume cs its k =
     sum_list (map volume (filter (\<lambda>i. preassigned_target cs i = Some k) its))"

text \<open>
  Zone enforcement: every success entry names an input item and a container whose zone
  is the item's preferred zone.
\<close>

definition zones_respected :: "Container list \<Rightarrow> Item list \<Rightarrow> results \<Rightarrow> bool" where
  "zones_respected cs its r =
     (\<forall>e\<in>set (successful_placements r). \<exists>i\<in>set its. \<exists>c\<in>set cs.
        p_item_id e = item_id i \<and> p_container_id e = container_id c \<and> zone_matches c i)"

text \<open>
  The same, except for the entries of the pre-assigned path: such an entry names the item,
  the container the item is attached to and the item's own position.
\<close>

definition zones_respected_by_search :: "Container list \<Rightarrow> Item list \<Rightarrow> results \<Rightarrow> bool" where
  "zones_respected_by_search cs its r =
     (\<forall>e\<in>set (successful_placements r). \<exists>i\<in>set its. \<exists>k\<in>{..<length cs}.
        p_item_id e = item_id i \<and> p_container_id e = container_id (cs ! k) \<and>
        (zone_matches (cs ! k) i \<or>
         (preassigned_target cs i = Some k \<and> position i = Some (p_position e))))"

text \<open>The attributes of a container that no operation changes.\<close>

definition frame :: "Container \<Rightarrow> string \<times> rat \<times> rat \<times> rat \<times> rat \<times> string" where
  "frame c = (container_id c, c_width c, c_depth c, c_height c, c_volume c, zone c)"

text \<open>The available volume of a container plus the volumes of the items in its list.\<close>

definition balance :: "Container \<Rightarrow> rat" where
  "balance c = available_volume c + sum_list (map volume (items c))"

text \<open>
  The invariant of a container's grid, relative to a set \<open>A\<close> of attached items: every other
  entry of the list has its cell range marked in the grid, and these ranges are pairwise
  disjoint.
\<close>

definition grid_consistent :: "Item set \<Rightarrow> Container \<Rightarrow> bool" where
  "grid_consistent A c =
     ((\<forall>j\<in>set (items c). j \<in> A \<or> item_cells j \<subseteq> space c) \<and>
      pairwise_disjoint (map item_cells (filter (\<lambda>j. j \<notin> A) (items c))))"

text \<open>
  What the search reads of a container and what \<open>place_item\<close> writes besides the list of
  items: the fixed attributes, the grid and the available volume.
\<close>

definition grid_view ::
  "Container \<Rightarrow> (string \<times> rat \<times> rat \<times> rat \<times> rat \<times> string) \<times> cell set \<times> rat" where
  "grid_view c = (frame c, space c, available_volume c)"

text \<open>
  The success entries of the pre-assigned path, one for each input item that carries a
  position and has a container whose bounds contain it.
\<close>

definition attached_entries :: "Container list \<Rightarrow> Item list \<Rightarrow> placement list" where
  "attached_entries cs its =
     concat (map (\<lambda>i. case position i of
                None \<Rightarrow> []
              | Some p \<Rightarrow> (case find_container cs i p of
                    None \<Rightarrow> []
                  | Some k \<Rightarrow> [mk_placement i (cs ! k) p])) its)"

section \<open>Example inputs\<close>

text \<open>A container of one unit cube (a grid of 10 by 10 by 10 cells) and an item filling it.\<close>

definition unit_container :: Container where
  "unit_container = mk_Container ''c1'' 1 1 1 ''A''"

definition unit_item :: Item where
  "unit_item = mk_Item ''i1'' ''item'' 1 1 1 1 5 '''' (Some ''A'')"

text \<open>
  A container one unit wide and two units deep, one that is two units high, and an item
  of priority 9. The loaded containers are the ones \<open>place_item\<close> leaves after the unit
  item is placed at the origin.
\<close>

definition deep_container :: Container where
  "deep_container = mk_Container ''c2'' 1 2 1 ''A''"

definition tall_container :: Container where
  "tall_container = mk_Container ''c3'' 1 1 2 ''A''"

definition urgent_item :: Item where
  "urgent_item = mk_Item ''i2'' ''urgent'' 1 1 1 1 9 '''' (Some ''A'')"

definition unit_loaded :: Container where
  "unit_loaded = fst (snd (place_item unit_container unit_item (0, 0, 0)))"

definition tall_loaded :: Container where
  "tall_loaded = fst (snd (place_item tall_container unit_item (0, 0, 0)))"

text \<open>
  The first example scenario of the specification: one container of 100 by 100 by 100 in
  zone A and one item of 50 by 50 by 50 with priority 5 and preferred zone A.
\<close>

definition scenario_container :: Container where
  "scenario_container = mk_Container ''C'' 100 100 100 ''A''"

definition scenario_item :: Item where
  "scenario_item = mk_Item ''I'' ''item'' 50 50 50 1 5 '''' (Some ''A'')"

definition scenario_packing :: "bool \<Rightarrow> ThreeDimensionalPacking" where
  "scenario_packing ez = mk_ThreeDimensionalPacking [scenario_container] [scenario_item] False ez"

text \<open>The container of the scenario as the run leaves it.\<close>

definition scenario_loaded :: Container where
  "scenario_loaded = scenario_container\<lparr>space := cells (0, 500, 0) 500 500 500,
      items := [scenario_item\<lparr>position := Some (0, 50, 0)\<rparr>],
      available_volume := 875000\<rparr>"

text \<open>
  Inputs with a pre-assigned position: the unit item positioned at the origin, a second
  item positioned at the same place, the unit item positioned outside every container,
  and a unit container in zone B.
\<close>

definition preset_item :: Item where
  "preset_item = unit_item\<lparr>position := Some (0, 0, 0)\<rparr>"

definition preset_item2 :: Item where
  "preset_item2 =
     (mk_Item ''i3'' ''other'' 1 1 1 1 5 '''' (Some ''A''))\<lparr>position := Some (0, 0, 0)\<rparr>"

definition far_item :: Item where
  "far_item = unit_item\<lparr>position := Some (5, 0, 0)\<rparr>"

definition zoneB_container :: Container where
  "zoneB_container = mk_Container ''cB'' 1 1 1 ''B''"

text \<open>
  The deep container after the search has placed the urgent item, and after it has placed
  the unit item as well.
\<close>

definition deep_after_urgent :: Container where
  "deep_after_urgent = placed_container deep_container urgent_item (0, 0, 0)"

definition deep_after_both :: Container where
  "deep_after_both = placed_container deep_after_urgent unit_item (0, 10, 0)"

text \<open>Three items that differ in priority and expiry date.\<close>

definition early_item :: Item where
  "early_item = mk_Item ''a'' ''early'' 1 1 1 1 9 ''2025-06-01'' (Some ''A'')"

definition late_item :: Item where
  "late_item = mk_Item ''b'' ''late'' 1 1 1 1 9 ''2026-01-01'' (Some ''A'')"

definition minor_item :: Item where
  "minor_item = mk_Item ''c'' ''minor'' 1 1 1 1 3 ''2025-01-01'' (Some ''A'')"

section \<open>Basic facts\<close>

lemma py_int_nonneg: "0 \<le> x \<Longrightarrow> py_int x = \<lfloor>x\<rfloor>"
  by (simp add: py_int_def)

lemma item_ok_mk_Item: "item_ok (mk_Item iid nm w d h m p e z)"
  by (simp add: item_ok_def mk_Item_def)

lemma item_cells_pos:
  assumes "item_ok i"
  shows "10 \<le> item_width i" "10 \<le> item_depth i" "10 \<le> item_height i"
proof -
  have *: "1 \<le> r \<Longrightarrow> 10 \<le> py_int (r * of_int resolution)" for r :: rat
  proof -
    assume "1 \<le> r"
    then have "(10::rat) \<le> r * 10" by simp
    then have "(10::int) \<le> \<lfloor>r * 10\<rfloor>" by (simp add: le_floor_iff)
    moreover have "0 \<le> r * 10" using \<open>1 \<le> r\<close> by simp
    ultimately show ?thesis by (simp add: py_int_def resolution_def)
  qed
  show "10 \<le> item_width i" "10 \<le> item_depth i" "10 \<le> item_height i"
    using assms by (simp_all add: item_ok_def item_width_def item_depth_def item_height_def *)
qed

text \<open>
  An integer corner that passes the real-valued bounds test of \<open>is_position_valid\<close> on one
  axis keeps the whole integer extent inside the grid on that axis.
\<close>

lemma axis_in_grid:
  fixes cw w :: rat and x :: int
  assumes "0 \<le> x" "1 \<le> w" "\<not> of_int x + w * of_int resolution > cw * of_int resolution"
  shows "x + py_int (w * of_int resolution) \<le> py_int (cw * of_int resolution)"
proof -
  let ?a = "w * of_int resolution" and ?b = "cw * of_int resolution"
  have wpos: "0 \<le> ?a" using assms(2) by (simp add: resolution_def)
  have le: "of_int x + ?a \<le> ?b" using assms(3) by simp
  have "(0::rat) \<le> of_int x" using assms(1) by simp
  then have bpos: "0 \<le> ?b" using wpos le by linarith
  have "of_int (x + \<lfloor>?a\<rfloor>) \<le> of_int x + ?a" by simp
  then have "of_int (x + \<lfloor>?a\<rfloor>) \<le> ?b" using le by linarith
  then have "x + \<lfloor>?a\<rfloor> \<le> \<lfloor>?b\<rfloor>" by (simp only: le_floor_iff)
  then show ?thesis using wpos bpos by (simp add: py_int_def)
qed

lemma py_slice_inside:
  assumes "0 \<le> a" "a \<le> b" "b \<le> n"
  shows "py_slice n a b = {a ..< b}"
  using assms by (simp add: py_slice_def slice_bound_def)

lemma valid_slice3_cells:
  assumes ok: "item_ok i" and v: "is_position_valid c i (x, y, z)"
  shows "slice3 c (x, y, z) (item_width i) (item_depth i) (item_height i) =
         cells (x, y, z) (item_width i) (item_depth i) (item_height i)"
proof -
  from v have x0: "0 \<le> x" and y0: "0 \<le> y" and z0: "0 \<le> z"
    and bx: "\<not> of_int x + width i * of_int resolution > c_width c * of_int resolution"
    and by': "\<not> of_int y + depth i * of_int resolution > c_depth c * of_int resolution"
    and bz: "\<not> of_int z + height i * of_int resolution > c_height c * of_int resolution"
    by (simp_all add: is_position_valid_def split: if_splits)
  from ok have w1: "1 \<le> width i" and d1: "1 \<le> depth i" and h1: "1 \<le> height i"
    by (simp_all add: item_ok_def)
  have ex: "x + item_width i \<le> width_cells c"
    unfolding item_width_def width_cells_def by (rule axis_in_grid [OF x0 w1 bx])
  have ey: "y + item_depth i \<le> depth_cells c"
    unfolding item_depth_def depth_cells_def by (rule axis_in_grid [OF y0 d1 by'])
  have ez: "z + item_height i \<le> height_cells c"
    unfolding item_height_def height_cells_def by (rule axis_in_grid [OF z0 h1 bz])
  have px: "py_slice (width_cells c) x (x + item_width i) = {x ..< x + item_width i}"
    using item_cells_pos(1) [OF ok] x0 ex by (intro py_slice_inside) simp_all
  have py: "py_slice (depth_cells c) y (y + item_depth i) = {y ..< y + item_depth i}"
    using item_cells_pos(2) [OF ok] y0 ey by (intro py_slice_inside) simp_all
  have pz: "py_slice (height_cells c) z (z + item_height i) = {z ..< z + item_height i}"
    using item_cells_pos(3) [OF ok] z0 ez by (intro py_slice_inside) simp_all
  show ?thesis by (simp add: slice3_def cells_def px py pz)
qed

lemma valid_cells_free:
  assumes "item_ok i" "is_position_valid c i (x, y, z)"
  shows "space c \<inter> cells (x, y, z) (item_width i) (item_depth i) (item_height i) = {}"
proof -
  from assms(2) have
    "space c \<inter> slice3 c (x, y, z) (item_width i) (item_depth i) (item_height i) = {}"
    by (simp add: is_position_valid_def split: if_splits)
  then show ?thesis by (simp only: valid_slice3_cells [OF assms])
qed

section \<open>The order of the search\<close>

lemma find_sorted_wrt_first:
  assumes "sorted_wrt R xs" "List.find P xs = Some p"
  shows "P p \<and> p \<in> set xs \<and> (\<forall>q\<in>set xs. P q \<longrightarrow> q = p \<or> R p q)"
  using assms
proof (induction xs)
  case Nil
  then show ?case by simp
next
  case (Cons a xs)
  show ?case
  proof (cases "P a")
    case True
    with Cons.prems show ?thesis by auto
  next
    case False
    with Cons.prems have "sorted_wrt R xs" "List.find P xs = Some p" by simp_all
    from Cons.IH [OF this] False show ?thesis by auto
  qed
qed

lemma sorted_wrt_product:
  fixes xs :: "int list"
  assumes "sorted_wrt (<) xs" "sorted_wrt S ys"
  shows "sorted_wrt (\<lambda>(x, y) (x', y'). x < x' \<or> (x = x' \<and> S y y')) (List.product xs ys)"
  using assms(1)
proof (induction xs)
  case Nil
  then show ?case by simp
next
  case (Cons a xs)
  have 1: "sorted_wrt (\<lambda>(x, y) (x', y'). x < x' \<or> (x = x' \<and> S y y')) (map (Pair a) ys)"
    using assms(2) by (simp add: sorted_wrt_map)
  have 2: "sorted_wrt (\<lambda>(x, y) (x', y'). x < x' \<or> (x = x' \<and> S y y')) (List.product xs ys)"
    using Cons by simp
  have 3: "\<forall>p\<in>set (map (Pair a) ys). \<forall>q\<in>set (List.product xs ys).
      (\<lambda>(x, y) (x', y'). x < x' \<or> (x = x' \<and> S y y')) p q"
    using Cons.prems by auto
  show ?case using 1 2 3 by (simp add: sorted_wrt_append)
qed

lemma sorted_wrt_py_range: "sorted_wrt (<) (py_range a b)"
  by (simp add: py_range_def sorted_wrt_upto)

lemma set_py_range: "set (py_range a b) = {a ..< b}"
  by (auto simp: py_range_def)

lemma distinct_py_range: "distinct (py_range a b)"
  by (simp add: py_range_def)

lemma sorted_wrt_y_range:
  "sorted_wrt (\<lambda>y y'. if priority i > 5 then y < y' else y' < y) (y_range c i)"
proof (cases "priority i > 5")
  case True
  then show ?thesis by (simp add: y_range_def py_range_def sorted_wrt_upto)
next
  case False
  have "sorted_wrt (\<lambda>y y'. y' < y) (rev [0..depth_cells c - item_depth i + 1 - 1])"
    by (simp add: sorted_wrt_rev sorted_wrt_upto)
  with False show ?thesis by (simp add: y_range_def py_range_def)
qed

lemma set_y_range: "set (y_range c i) = {0 ..< depth_cells c - item_depth i + 1}"
  by (auto simp: y_range_def py_range_def)

lemma set_x_range: "set (x_range c i) = {0 ..< width_cells c - item_width i + 1}"
  by (auto simp: x_range_def py_range_def)

lemma set_z_range: "set (z_range c i) = {1 ..< height_cells c - item_height i + 1}"
  by (auto simp: z_range_def py_range_def)

lemma sorted_wrt_floor_candidates:
  "sorted_wrt (\<lambda>p q. floor_before i (fst p, fst (snd p)) (fst q, fst (snd q)))
     (floor_candidates c i)"
proof -
  have "sorted_wrt (\<lambda>(x, y) (x', y'). x < x' \<or>
          (x = x' \<and> (if priority i > 5 then y < y' else y' < y)))
        (List.product (x_range c i) (y_range c i))"
    by (rule sorted_wrt_product) (simp_all add: x_range_def sorted_wrt_py_range sorted_wrt_y_range)
  then show ?thesis
    unfolding floor_candidates_def sorted_wrt_map
    by (rule sorted_wrt_mono_rel [rotated]) (auto simp: floor_before_def)
qed

lemma valid_in_grid:
  assumes ok: "item_ok i" and v: "is_position_valid c i (x, y, z)"
  shows "0 \<le> x" "0 \<le> y" "0 \<le> z"
    "x + item_width i \<le> width_cells c"
    "y + item_depth i \<le> depth_cells c"
    "z + item_height i \<le> height_cells c"
proof -
  from v show x0: "0 \<le> x" and y0: "0 \<le> y" and z0: "0 \<le> z"
    by (simp_all add: is_position_valid_def split: if_splits)
  from v have bx: "\<not> of_int x + width i * of_int resolution > c_width c * of_int resolution"
    and by': "\<not> of_int y + depth i * of_int resolution > c_depth c * of_int resolution"
    and bz: "\<not> of_int z + height i * of_int resolution > c_height c * of_int resolution"
    by (simp_all add: is_position_valid_def split: if_splits)
  from ok have w1: "1 \<le> width i" and d1: "1 \<le> depth i" and h1: "1 \<le> height i"
    by (simp_all add: item_ok_def)
  show "x + item_width i \<le> width_cells c"
    unfolding item_width_def width_cells_def by (rule axis_in_grid [OF x0 w1 bx])
  show "y + item_depth i \<le> depth_cells c"
    unfolding item_depth_def depth_cells_def by (rule axis_in_grid [OF y0 d1 by'])
  show "z + item_height i \<le> height_cells c"
    unfolding item_height_def height_cells_def by (rule axis_in_grid [OF z0 h1 bz])
qed

lemma valid_floor_candidate:
  assumes "item_ok i" "is_position_valid c i (x, y, 0)"
  shows "(x, y, 0) \<in> set (floor_candidates c i)"
  using valid_in_grid [OF assms]
  by (auto simp: floor_candidates_def set_x_range set_y_range image_iff)

lemma valid_stacking_candidate:
  assumes "item_ok i" "is_position_valid c i (x, y, z)" "1 \<le> z"
  shows "(x, y, z) \<in> set (stacking_candidates c i)"
  using valid_in_grid [OF assms(1,2)] assms(3)
  by (auto simp: stacking_candidates_def set_x_range set_y_range set_z_range)

lemma floor_candidates_z: "p \<in> set (floor_candidates c i) \<Longrightarrow> snd (snd p) = 0"
  by (auto simp: floor_candidates_def)

lemma stacking_candidates_z: "p \<in> set (stacking_candidates c i) \<Longrightarrow> 1 \<le> snd (snd p)"
  by (auto simp: stacking_candidates_def set_z_range)

lemma stacking_pass_z:
  "stacking_pass c i ps = Inr (Some p) \<Longrightarrow> p \<in> set ps \<and> is_position_valid c i p"
  by (induction ps) (auto split: if_splits sum.splits)

lemma find_floor_result:
  assumes "find_bottom_left_back_position c i = Inr (Some p)"
  shows "(snd (snd p) = 0 \<and> List.find (is_position_valid c i) (floor_candidates c i) = Some p) \<or>
         (1 \<le> snd (snd p) \<and> List.find (is_position_valid c i) (floor_candidates c i) = None
           \<and> stacking_pass c i (stacking_candidates c i) = Inr (Some p))"
proof (cases "List.find (is_position_valid c i) (floor_candidates c i)")
  case None
  with assms have s: "stacking_pass c i (stacking_candidates c i) = Inr (Some p)"
    by (simp add: find_bottom_left_back_position_def)
  from stacking_pass_z [OF s] stacking_candidates_z have "1 \<le> snd (snd p)" by blast
  with None s show ?thesis by simp
next
  case (Some q)
  with assms have "q = p" by (simp add: find_bottom_left_back_position_def)
  with Some have f: "List.find (is_position_valid c i) (floor_candidates c i) = Some p" by simp
  then have "p \<in> set (floor_candidates c i)" by (auto simp: find_Some_iff)
  with floor_candidates_z f show ?thesis by blast
qed

section \<open>Support and the stacking pass\<close>

lemma np_index_inside: "0 \<le> v \<Longrightarrow> v < n \<Longrightarrow> np_index n v = Inr v"
  by (simp add: np_index_def)

lemma count_support_floor: "z \<le> 0 \<Longrightarrow> count_support c z ps n = Inr n"
  by (induction ps arbitrary: n) auto

lemma count_support_eq:
  assumes "\<forall>p\<in>set ps. 0 \<le> fst p \<and> fst p < width_cells c \<and> 0 \<le> snd p \<and> snd p < depth_cells c"
    and "0 < z" and "z \<le> height_cells c"
  shows "count_support c z ps n =
         Inr (n + length (filter (\<lambda>(sx, sy). (sx, sy, z - 1) \<in> space c) ps))"
  using assms(1)
proof (induction ps arbitrary: n)
  case Nil
  then show ?case by simp
next
  case (Cons p ps)
  obtain sx sy where p: "p = (sx, sy)" by (cases p)
  from Cons.prems p have b: "0 \<le> sx" "sx < width_cells c" "0 \<le> sy" "sy < depth_cells c"
    by simp_all
  have g: "space_get c (sx, sy, z - 1) = Inr ((sx, sy, z - 1) \<in> space c)"
    using b assms(2,3) by (simp add: space_get_def np_index_inside)
  from Cons.prems have "\<forall>p\<in>set ps. 0 \<le> fst p \<and> fst p < width_cells c \<and> 0 \<le> snd p \<and> snd p < depth_cells c"
    by simp
  note IH = Cons.IH [OF this]
  show ?case using b assms(2) by (simp add: p g IH)
qed

lemma footprint_card:
  "length (filter (\<lambda>(sx, sy). (sx, sy, z - 1) \<in> space c) (footprint i (x, y, z))) =
   occupied_below c i (x, y, z)"
proof -
  let ?P = "\<lambda>(sx, sy). (sx, sy, z - 1) \<in> space c"
  have d: "distinct (filter ?P (footprint i (x, y, z)))"
    by (simp add: footprint_def distinct_product distinct_py_range)
  have "set (filter ?P (footprint i (x, y, z))) =
        Set.filter ?P ({x ..< x + item_width i} \<times> {y ..< y + item_depth i})"
    by (auto simp: footprint_def set_py_range)
  then have "occupied_below c i (x, y, z) = card (set (filter ?P (footprint i (x, y, z))))"
    by (simp add: occupied_below_def)
  also have "\<dots> = length (filter ?P (footprint i (x, y, z)))"
    using d by (rule distinct_card)
  finally show ?thesis by simp
qed

lemma required_support_le:
  "(required_support i \<le> of_nat n) = (item_width i * item_depth i \<le> 2 * int n)"
proof -
  have "(required_support i \<le> of_nat n) =
        ((of_int (item_width i * item_depth i) :: rat) \<le> of_int (2 * int n))"
    by (simp add: required_support_def field_simps)
  also have "\<dots> = (item_width i * item_depth i \<le> 2 * int n)"
    by (simp only: of_int_le_iff)
  finally show ?thesis .
qed

lemma has_support_valid:
  assumes ok: "item_ok i" and v: "is_position_valid c i (x, y, z)" and z: "0 < z"
  shows "has_support c i (x, y, z) = Inr (supported c i (x, y, z))"
proof -
  note g = valid_in_grid [OF ok v]
  have fp: "\<forall>p\<in>set (footprint i (x, y, z)).
      0 \<le> fst p \<and> fst p < width_cells c \<and> 0 \<le> snd p \<and> snd p < depth_cells c"
    using g by (auto simp: footprint_def set_py_range)
  have zh: "z \<le> height_cells c" using g(6) item_cells_pos(3) [OF ok] by linarith
  show ?thesis
    by (simp add: has_support_def count_support_eq [OF fp z zh] footprint_card
        required_support_le supported_def)
qed

lemma has_support_total:
  assumes ok: "item_ok i" and v: "is_position_valid c i p"
  shows "\<exists>b. has_support c i p = Inr b"
proof -
  obtain x y z where p: "p = (x, y, z)" by (cases p)
  show ?thesis
  proof (cases "0 < z")
    case True
    with has_support_valid [OF ok] v p show ?thesis by blast
  next
    case False
    then show ?thesis by (simp add: p has_support_def count_support_floor)
  qed
qed

lemma stacking_pass_total:
  assumes "item_ok i"
  shows "\<exists>r. stacking_pass c i ps = Inr r"
proof (induction ps)
  case Nil
  then show ?case by simp
next
  case (Cons p ps)
  show ?case
  proof (cases "is_position_valid c i p")
    case True
    from has_support_total [OF assms True] obtain b where "has_support c i p = Inr b" ..
    with True Cons show ?thesis by simp
  next
    case False
    with Cons show ?thesis by simp
  qed
qed

lemma stacking_pass_Some:
  "stacking_pass c i ps = Inr (Some p) \<Longrightarrow>
     p \<in> set ps \<and> is_position_valid c i p \<and> has_support c i p = Inr True"
  by (induction ps) (auto split: if_splits sum.splits)

lemma stacking_pass_None:
  "stacking_pass c i ps = Inr None \<Longrightarrow> q \<in> set ps \<Longrightarrow> is_position_valid c i q \<Longrightarrow>
     has_support c i q = Inr False"
  by (induction ps) (auto split: if_splits sum.splits)

lemma stacking_pass_None_intro:
  assumes "\<forall>q\<in>set ps. is_position_valid c i q \<longrightarrow> has_support c i q = Inr False"
  shows "stacking_pass c i ps = Inr None"
  using assms by (induction ps) auto

lemma find_total:
  assumes "item_ok i"
  shows "\<exists>r. find_bottom_left_back_position c i = Inr r"
  using stacking_pass_total [OF assms, of c "stacking_candidates c i"]
  by (auto simp: find_bottom_left_back_position_def split: option.splits)

lemma find_stacked_supported:
  assumes ok: "item_ok i" and r: "find_bottom_left_back_position c i = Inr (Some (x, y, z))"
    and z: "0 < z"
  shows "is_position_valid c i (x, y, z) \<and> supported c i (x, y, z)"
proof -
  from find_floor_result [OF r] z
  have s: "stacking_pass c i (stacking_candidates c i) = Inr (Some (x, y, z))" by auto
  from stacking_pass_Some [OF s]
  have v: "is_position_valid c i (x, y, z)" and h: "has_support c i (x, y, z) = Inr True"
    by simp_all
  from has_support_valid [OF ok v z] h show ?thesis using v by simp
qed

lemma find_None_iff_unsupported:
  assumes ok: "item_ok i"
  shows "(find_bottom_left_back_position c i = Inr None) =
         (\<forall>x y z. is_position_valid c i (x, y, z) \<longrightarrow> 0 < z \<and> \<not> supported c i (x, y, z))"
proof
  assume n: "find_bottom_left_back_position c i = Inr None"
  then have f: "List.find (is_position_valid c i) (floor_candidates c i) = None"
    and s: "stacking_pass c i (stacking_candidates c i) = Inr None"
    by (auto simp: find_bottom_left_back_position_def split: option.splits)
  show "\<forall>x y z. is_position_valid c i (x, y, z) \<longrightarrow> 0 < z \<and> \<not> supported c i (x, y, z)"
  proof (intro allI impI)
    fix x y z
    assume v: "is_position_valid c i (x, y, z)"
    have z0: "0 \<le> z" using valid_in_grid(3) [OF ok v] .
    have "z \<noteq> 0"
    proof
      assume "z = 0"
      with valid_floor_candidate [OF ok, of c x y] v f show False
        by (auto simp: find_None_iff)
    qed
    with z0 have z: "0 < z" by simp
    then have "(x, y, z) \<in> set (stacking_candidates c i)"
      using valid_stacking_candidate [OF ok v] by simp
    from stacking_pass_None [OF s this v] has_support_valid [OF ok v z]
    have "\<not> supported c i (x, y, z)" by simp
    with z show "0 < z \<and> \<not> supported c i (x, y, z)" by simp
  qed
next
  assume a: "\<forall>x y z. is_position_valid c i (x, y, z) \<longrightarrow> 0 < z \<and> \<not> supported c i (x, y, z)"
  have f: "List.find (is_position_valid c i) (floor_candidates c i) = None"
  proof -
    have "\<not> (\<exists>p. p \<in> set (floor_candidates c i) \<and> is_position_valid c i p)"
    proof
      assume "\<exists>p. p \<in> set (floor_candidates c i) \<and> is_position_valid c i p"
      then obtain p where p: "p \<in> set (floor_candidates c i)" "is_position_valid c i p" by blast
      obtain x y z where e: "p = (x, y, z)" by (cases p)
      from floor_candidates_z [OF p(1)] e have "z = 0" by simp
      with a p(2) e show False by auto
    qed
    then show ?thesis by (simp add: find_None_iff)
  qed
  have s: "stacking_pass c i (stacking_candidates c i) = Inr None"
  proof (rule stacking_pass_None_intro, intro ballI impI)
    fix q assume v: "is_position_valid c i q"
    obtain x y z where e: "q = (x, y, z)" by (cases q)
    from a v e have "0 < z" "\<not> supported c i (x, y, z)" by auto
    with has_support_valid [OF ok, of c x y z] v e show "has_support c i q = Inr False" by simp
  qed
  show "find_bottom_left_back_position c i = Inr None"
    by (simp add: find_bottom_left_back_position_def f s)
qed

section \<open>Evaluating validity on the examples\<close>

lemmas example_defs = unit_container_def unit_item_def deep_container_def tall_container_def
  urgent_item_def mk_Container_def mk_Item_def

lemma unit_item_ok: "item_ok unit_item"
  by (simp add: unit_item_def item_ok_mk_Item)

lemma unit_item_cells:
  "item_width unit_item = 10" "item_depth unit_item = 10" "item_height unit_item = 10"
  by (simp_all add: unit_item_def mk_Item_def item_width_def item_depth_def item_height_def
      py_int_def resolution_def)

lemma unit_valid_origin: "is_position_valid unit_container unit_item (0, 0, 0)"
  by (simp add: is_position_valid_def unit_container_def unit_item_def mk_Container_def
      mk_Item_def resolution_def)

lemma unit_invalid_shifted: "\<not> is_position_valid unit_container unit_item (1, 0, 0)"
  by (simp add: is_position_valid_def unit_container_def unit_item_def mk_Container_def
      mk_Item_def resolution_def)

lemma cells_disjoint_iff:
  "(cells (x, y, z) w d h \<inter> cells (x', y', z') w' d' h' = {}) =
   (\<not> (x < x' + w' \<and> x' < x + w \<and> 0 < w \<and> 0 < w' \<and>
       y < y' + d' \<and> y' < y + d \<and> 0 < d \<and> 0 < d' \<and>
       z < z' + h' \<and> z' < z + h \<and> 0 < h \<and> 0 < h'))"
  by (simp add: cells_def Times_Int_Times) blast

lemma is_position_valid_iff:
  assumes ok: "item_ok i"
  shows "is_position_valid c i (x, y, z) =
    (0 \<le> x \<and> 0 \<le> y \<and> 0 \<le> z \<and>
     of_int x + width i * of_int resolution \<le> c_width c * of_int resolution \<and>
     of_int y + depth i * of_int resolution \<le> c_depth c * of_int resolution \<and>
     of_int z + height i * of_int resolution \<le> c_height c * of_int resolution \<and>
     space c \<inter> cells (x, y, z) (item_width i) (item_depth i) (item_height i) = {})"
proof (cases "0 \<le> x \<and> 0 \<le> y \<and> 0 \<le> z \<and>
     of_int x + width i * of_int resolution \<le> c_width c * of_int resolution \<and>
     of_int y + depth i * of_int resolution \<le> c_depth c * of_int resolution \<and>
     of_int z + height i * of_int resolution \<le> c_height c * of_int resolution")
  case False
  then show ?thesis by (auto simp: is_position_valid_def)
next
  case True
  then have x0: "0 \<le> x" and y0: "0 \<le> y" and z0: "0 \<le> z"
    and bx: "\<not> of_int x + width i * of_int resolution > c_width c * of_int resolution"
    and by': "\<not> of_int y + depth i * of_int resolution > c_depth c * of_int resolution"
    and bz: "\<not> of_int z + height i * of_int resolution > c_height c * of_int resolution"
    by simp_all
  from ok have w1: "1 \<le> width i" and d1: "1 \<le> depth i" and h1: "1 \<le> height i"
    by (simp_all add: item_ok_def)
  have ex: "x + item_width i \<le> width_cells c"
    unfolding item_width_def width_cells_def by (rule axis_in_grid [OF x0 w1 bx])
  have ey: "y + item_depth i \<le> depth_cells c"
    unfolding item_depth_def depth_cells_def by (rule axis_in_grid [OF y0 d1 by'])
  have ez: "z + item_height i \<le> height_cells c"
    unfolding item_height_def height_cells_def by (rule axis_in_grid [OF z0 h1 bz])
  have px: "py_slice (width_cells c) x (x + item_width i) = {x ..< x + item_width i}"
    using item_cells_pos(1) [OF ok] x0 ex by (intro py_slice_inside) simp_all
  have py: "py_slice (depth_cells c) y (y + item_depth i) = {y ..< y + item_depth i}"
    using item_cells_pos(2) [OF ok] y0 ey by (intro py_slice_inside) simp_all
  have pz: "py_slice (height_cells c) z (z + item_height i) = {z ..< z + item_height i}"
    using item_cells_pos(3) [OF ok] z0 ez by (intro py_slice_inside) simp_all
  have "slice3 c (x, y, z) (item_width i) (item_depth i) (item_height i) =
         cells (x, y, z) (item_width i) (item_depth i) (item_height i)"
    by (simp add: slice3_def cells_def px py pz)
  then show ?thesis using True by (simp add: is_position_valid_def)
qed

lemma place_item_valid:
  assumes "item_ok i" "is_position_valid c i (x, y, z)"
  shows "place_item c i (x, y, z) =
         (True,
          c\<lparr>space := space c \<union> cells (x, y, z) (item_width i) (item_depth i) (item_height i),
            items := items c @ [i\<lparr>position := Some (grid_to_real (x, y, z))\<rparr>],
            available_volume := available_volume c - volume i\<rparr>,
          i\<lparr>position := Some (grid_to_real (x, y, z))\<rparr>)"
  using assms(2) by (simp add: place_item_def Let_def valid_slice3_cells [OF assms] grid_to_real_def)

lemma tall_valid_origin: "is_position_valid tall_container unit_item (0, 0, 0)"
  by (simp add: is_position_valid_def example_defs resolution_def)

lemma tall_loaded_eq:
  "tall_loaded = tall_container\<lparr>space := cells (0, 0, 0) 10 10 10,
        items := [unit_item\<lparr>position := Some (0, 0, 0)\<rparr>],
        available_volume := 1\<rparr>"
  by (simp add: tall_loaded_def place_item_valid [OF unit_item_ok tall_valid_origin]
      unit_item_cells grid_to_real_def) (simp add: example_defs)

lemma tall_dims: "c_width tall_loaded = 1" "c_depth tall_loaded = 1" "c_height tall_loaded = 2"
  "space tall_loaded = cells (0, 0, 0) 10 10 10"
  by (simp_all add: tall_loaded_eq) (simp_all add: example_defs)

lemma unit_dims: "width unit_item = 1" "depth unit_item = 1" "height unit_item = 1" "priority unit_item = 5"
  by (simp_all add: example_defs)

lemma tall_valid: "is_position_valid tall_loaded unit_item (x, y, z) = (x = 0 \<and> y = 0 \<and> z = 10)"
  by (auto simp add: is_position_valid_iff [OF unit_item_ok] tall_dims unit_dims unit_item_cells
      resolution_def cells_disjoint_iff)

section \<open>The result of the floor pass\<close>

lemma floor_result_first:
  assumes ok: "item_ok i" and r: "find_bottom_left_back_position c i = Inr (Some (x, y, 0))"
  shows "is_position_valid c i (x, y, 0)" "0 \<le> x" "0 \<le> y"
    "is_position_valid c i (x', y', 0) \<Longrightarrow> (x', y') = (x, y) \<or> floor_before i (x, y) (x', y')"
proof -
  from find_floor_result [OF r]
  have f: "List.find (is_position_valid c i) (floor_candidates c i) = Some (x, y, 0)" by simp
  note first = find_sorted_wrt_first [OF sorted_wrt_floor_candidates f]
  from first show v: "is_position_valid c i (x, y, 0)" by simp
  from valid_in_grid [OF ok v] show "0 \<le> x" "0 \<le> y" by simp_all
  assume v': "is_position_valid c i (x', y', 0)"
  from valid_floor_candidate [OF ok v'] first v'
  have "(x', y', 0) = (x, y, 0) \<or> floor_before i (x, y) (x', y')" by fastforce
  then show "(x', y') = (x, y) \<or> floor_before i (x, y) (x', y')" by simp
qed

lemma floor_result_exists:
  assumes ok: "item_ok i" and v': "is_position_valid c i (x', y', 0)"
  shows "\<exists>x y. find_bottom_left_back_position c i = Inr (Some (x, y, 0))"
proof -
  from valid_floor_candidate [OF ok v'] v'
  have "List.find (is_position_valid c i) (floor_candidates c i) \<noteq> None"
    by (auto simp: find_None_iff)
  then obtain p where f: "List.find (is_position_valid c i) (floor_candidates c i) = Some p"
    by blast
  then have "p \<in> set (floor_candidates c i)" by (auto simp: find_Some_iff)
  then have "snd (snd p) = 0" by (rule floor_candidates_z)
  then have "p = (fst p, fst (snd p), 0)" by (metis prod.collapse)
  with f have "find_bottom_left_back_position c i = Inr (Some (fst p, fst (snd p), 0))"
    by (simp add: find_bottom_left_back_position_def)
  then show ?thesis by blast
qed

lemma stacked_result_no_floor:
  assumes ok: "item_ok i" and r: "find_bottom_left_back_position c i = Inr (Some (x, y, z))"
    and z: "1 \<le> z"
  shows "\<not> is_position_valid c i (x', y', 0)"
proof
  assume v': "is_position_valid c i (x', y', 0)"
  from find_floor_result [OF r] z
  have n: "List.find (is_position_valid c i) (floor_candidates c i) = None" by auto
  from valid_floor_candidate [OF ok v'] v' n show False by (auto simp: find_None_iff)
qed

text \<open>
  When the first corner the floor pass visits is valid, it is the result: the corner
  \<open>x = 0\<close> with \<open>y = 0\<close> for a priority above 5, and with the largest \<open>y\<close> otherwise.
\<close>

lemma find_first_floor:
  assumes ok: "item_ok i"
    and y0: "y0 = (if priority i > 5 then 0 else depth_cells c - item_depth i)"
    and v: "is_position_valid c i (0, y0, 0)"
  shows "find_bottom_left_back_position c i = Inr (Some (0, y0, 0))"
proof -
  from floor_result_exists [OF ok v] obtain x y
    where r: "find_bottom_left_back_position c i = Inr (Some (x, y, 0))" by blast
  note f = floor_result_first [OF ok r]
  from f(4) [OF v] have "(0, y0) = (x, y) \<or> floor_before i (x, y) (0, y0)" .
  moreover have "\<not> floor_before i (x, y) (0, y0)"
  proof
    assume b: "floor_before i (x, y) (0, y0)"
    from valid_in_grid(5) [OF ok f(1)] have "y \<le> depth_cells c - item_depth i" by simp
    with b f(2,3) y0 show False by (auto simp: floor_before_def split: if_splits)
  qed
  ultimately have "(0, y0) = (x, y)" by blast
  with r show ?thesis by simp
qed

lemma unit_valid_iff:
  "is_position_valid unit_container unit_item (x, y, z) = (x = 0 \<and> y = 0 \<and> z = 0)"
  by (auto simp add: is_position_valid_iff [OF unit_item_ok] unit_item_cells resolution_def)
     (simp_all add: example_defs)

section \<open>The search on the examples\<close>

lemma urgent_item_ok: "item_ok urgent_item"
  by (simp add: urgent_item_def item_ok_mk_Item)

lemma deep_cells: "width_cells deep_container = 10" "depth_cells deep_container = 20"
  "height_cells deep_container = 10"
  by (simp_all add: width_cells_def depth_cells_def height_cells_def example_defs py_int_def
      resolution_def)

lemma urgent_item_cells:
  "item_width urgent_item = 10" "item_depth urgent_item = 10" "item_height urgent_item = 10"
  by (simp_all add: example_defs item_width_def item_depth_def item_height_def
      py_int_def resolution_def)

lemma deep_valid_unit:
  "is_position_valid deep_container unit_item (x, y, z) = (x = 0 \<and> 0 \<le> y \<and> y \<le> 10 \<and> z = 0)"
  by (auto simp add: is_position_valid_iff [OF unit_item_ok] unit_item_cells resolution_def)
     (simp_all add: example_defs)

lemma deep_valid_urgent:
  "is_position_valid deep_container urgent_item (x, y, z) = (x = 0 \<and> 0 \<le> y \<and> y \<le> 10 \<and> z = 0)"
  by (auto simp add: is_position_valid_iff [OF urgent_item_ok] urgent_item_cells resolution_def)
     (simp_all add: example_defs)

lemma find_deep_unit:
  "find_bottom_left_back_position deep_container unit_item = Inr (Some (0, 10, 0))"
  by (rule find_first_floor [OF unit_item_ok])
     (simp_all add: deep_valid_unit deep_cells unit_item_cells unit_dims)

lemma find_deep_urgent:
  "find_bottom_left_back_position deep_container urgent_item = Inr (Some (0, 0, 0))"
proof (rule find_first_floor [OF urgent_item_ok])
  show "0 = (if 5 < priority urgent_item then 0
             else depth_cells deep_container - item_depth urgent_item)"
    by (simp add: urgent_item_def mk_Item_def)
  show "is_position_valid deep_container urgent_item (0, 0, 0)"
    by (simp add: deep_valid_urgent)
qed

lemma unit_loaded_eq:
  "unit_loaded = unit_container\<lparr>space := cells (0, 0, 0) 10 10 10,
        items := [unit_item\<lparr>position := Some (0, 0, 0)\<rparr>],
        available_volume := 0\<rparr>"
  by (simp add: unit_loaded_def place_item_valid [OF unit_item_ok unit_valid_origin]
      unit_item_cells grid_to_real_def) (simp add: example_defs)

lemma unit_loaded_invalid: "\<not> is_position_valid unit_loaded unit_item (x, y, z)"
  by (auto simp add: is_position_valid_iff [OF unit_item_ok] unit_item_cells resolution_def
      unit_loaded_eq cells_disjoint_iff)
     (simp_all add: example_defs)

lemma find_unit_loaded: "find_bottom_left_back_position unit_loaded unit_item = Inr None"
  by (simp add: find_None_iff_unsupported [OF unit_item_ok] unit_loaded_invalid)

lemma tall_supported: "supported tall_loaded unit_item (0, 0, 10)"
proof -
  have "Set.filter (\<lambda>(sx, sy). (sx, sy, 10 - 1) \<in> cells (0, 0, 0) 10 10 10)
          ({0 ..< 0 + 10} \<times> {0 ..< 0 + 10}) = {0 ..< 10} \<times> {0 ..< (10::int)}"
    by (auto simp: cells_def)
  then have "occupied_below tall_loaded unit_item (0, 0, 10) = 100"
    by (simp add: occupied_below_def tall_dims unit_item_cells card_cartesian_product)
  then show ?thesis by (simp add: supported_def unit_item_cells)
qed

lemma find_tall_loaded:
  "find_bottom_left_back_position tall_loaded unit_item = Inr (Some (0, 0, 10))"
proof -
  from find_total [OF unit_item_ok] obtain r
    where r: "find_bottom_left_back_position tall_loaded unit_item = Inr r" by blast
  have "r \<noteq> None"
  proof
    assume "r = None"
    with r find_None_iff_unsupported [OF unit_item_ok, of tall_loaded]
    have "is_position_valid tall_loaded unit_item (0, 0, 10) \<longrightarrow>
          \<not> supported tall_loaded unit_item (0, 0, 10)" by blast
    with tall_supported show False by (simp add: tall_valid)
  qed
  then obtain x y z where p: "r = Some (x, y, z)" by (cases r) auto
  from find_floor_result [of tall_loaded unit_item "(x, y, z)"] r p
  have "z = 0 \<or> 1 \<le> z" by auto
  then have "is_position_valid tall_loaded unit_item (x, y, z)"
  proof
    assume "z = 0"
    with floor_result_first(1) [OF unit_item_ok, of tall_loaded x y] r p show ?thesis by simp
  next
    assume "1 \<le> z"
    with find_stacked_supported [OF unit_item_ok, of tall_loaded x y z] r p show ?thesis by simp
  qed
  then have "(x, y, z) = (0, 0, 10)" by (simp add: tall_valid)
  with r p show ?thesis by simp
qed

section \<open>The order of the items\<close>

lemma sort_items_sorted:
  "sorted_wrt (\<lambda>a b. priority b < priority a \<or>
      (priority a = priority b \<and> expiry_date a \<le> expiry_date b)) (sort_items its)"
proof -
  have "sorted (map (\<lambda>x. (- priority x, expiry_date x)) (sort_items its))"
    unfolding sort_items_def by (rule sorted_sort_key)
  then have "sorted_wrt (\<lambda>a b. (- priority a, expiry_date a) \<le> (- priority b, expiry_date b))
      (sort_items its)"
    by (simp add: sorted_map)
  then show ?thesis
    by (rule sorted_wrt_mono_rel [rotated]) auto
qed

lemma sort_items_mset: "mset (sort_items its) = mset its"
  by (simp add: sort_items_def)

lemma sort_items_stable:
  "filter (\<lambda>x. (priority x, expiry_date x) = k) (sort_items its) =
   filter (\<lambda>x. (priority x, expiry_date x) = k) its"
proof -
  have e: "(\<lambda>x. (priority x, expiry_date x) = k) =
           (\<lambda>x. (- priority x, expiry_date x) = (- fst k, snd k))"
    by (cases k) auto
  show ?thesis
    unfolding e sort_items_def by (rule sort_key_stable)
qed

lemma pack_loop_append:
  "pack_loop ez st (xs @ ys) =
     (case pack_loop ez st xs of Inl e \<Rightarrow> Inl e | Inr st' \<Rightarrow> pack_loop ez st' ys)"
  by (induction xs arbitrary: st) (auto split: sum.splits)

lemma sort_items_example:
  "sort_items [minor_item, late_item, early_item] = [early_item, late_item, minor_item]"
  by (simp add: sort_items_def minor_item_def late_item_def early_item_def mk_Item_def)

section \<open>The first scenario\<close>

lemmas scenario_defs = scenario_container_def scenario_item_def mk_Container_def mk_Item_def

lemma scenario_item_ok: "item_ok scenario_item"
  by (simp add: scenario_item_def item_ok_mk_Item)

lemma scenario_item_cells:
  "item_width scenario_item = 500" "item_depth scenario_item = 500"
  "item_height scenario_item = 500"
  by (simp_all add: scenario_defs item_width_def item_depth_def item_height_def
      py_int_def resolution_def)

lemma scenario_container_cells:
  "width_cells scenario_container = 1000" "depth_cells scenario_container = 1000"
  "height_cells scenario_container = 1000"
  by (simp_all add: scenario_defs width_cells_def depth_cells_def height_cells_def
      py_int_def resolution_def)

lemma scenario_valid: "is_position_valid scenario_container scenario_item (0, 500, 0)"
  by (simp add: is_position_valid_iff [OF scenario_item_ok] resolution_def)
     (simp add: scenario_defs)

lemma scenario_find:
  "find_bottom_left_back_position scenario_container scenario_item = Inr (Some (0, 500, 0))"
proof (rule find_first_floor [OF scenario_item_ok])
  show "500 = (if 5 < priority scenario_item then 0
               else depth_cells scenario_container - item_depth scenario_item)"
    by (simp add: scenario_container_cells scenario_item_cells) (simp add: scenario_defs)
  show "is_position_valid scenario_container scenario_item (0, 500, 0)" by (rule scenario_valid)
qed

lemma scenario_place:
  "place_item scenario_container scenario_item (0, 500, 0) =
     (True, scenario_loaded, scenario_item\<lparr>position := Some (0, 50, 0)\<rparr>)"
  by (simp add: place_item_valid [OF scenario_item_ok scenario_valid] scenario_item_cells
      grid_to_real_def resolution_def scenario_loaded_def) (simp add: scenario_defs)

lemma scenario_try:
  "try_containers ez scenario_item [scenario_container] [0] =
     Inr ([scenario_loaded],
          Some \<lparr>p_item_id = ''I'', p_container_id = ''C'', p_position = (0, 50, 0),
                p_dimensions = (50, 50, 50)\<rparr>)"
  by (simp add: scenario_find scenario_place mk_placement_def grid_to_real_def resolution_def)
     (simp add: scenario_defs zone_matches_def)

lemma scenario_matching: "matching_containers ez [scenario_container] scenario_item = [0]"
  by (simp add: matching_containers_def zone_matches_def scenario_defs)

lemma scenario_run:
  "pack_items (scenario_packing ez) =
     Inr ([scenario_loaded],
          \<lparr>successful_placements =
             [\<lparr>p_item_id = ''I'', p_container_id = ''C'', p_position = (0, 50, 0),
               p_dimensions = (50, 50, 50)\<rparr>],
           unplaced_items = [],
           container_stats =
             [\<lparr>s_container_id = ''C'', s_zone = ''A'', s_items_placed = 1,
               s_volume_utilization = 25 / 2, s_available_volume = 875000,
               s_total_volume = 1000000\<rparr>]\<rparr>)"
proof -
  have p: "position scenario_item = None" by (simp add: scenario_defs)
  have s: "sort_items [scenario_item] = [scenario_item]" by (simp add: sort_items_def)
  have l: "pack_loop ez ([scenario_container],
             \<lparr>successful_placements = [], unplaced_items = [], container_stats = []\<rparr>)
             [scenario_item] =
           Inr ([scenario_loaded],
             \<lparr>successful_placements =
               [\<lparr>p_item_id = ''I'', p_container_id = ''C'', p_position = (0, 50, 0),
                 p_dimensions = (50, 50, 50)\<rparr>],
              unplaced_items = [], container_stats = []\<rparr>)"
    by (simp add: pack_item_def p search_placement_def scenario_matching scenario_try
        add_success_def del: try_containers.simps)
  have st: "container_statistics [scenario_loaded] =
      Inr [\<lparr>s_container_id = ''C'', s_zone = ''A'', s_items_placed = 1,
               s_volume_utilization = 25 / 2, s_available_volume = 875000,
               s_total_volume = 1000000\<rparr>]"
    by (simp add: container_stat_of_def scenario_loaded_def) (simp add: scenario_defs)
  show ?thesis
    by (simp add: pack_items_def scenario_packing_def mk_ThreeDimensionalPacking_def s l st
        del: pack_loop.simps container_statistics.simps)
qed

section \<open>One iteration of the packing loop\<close>

lemma place_item_eq:
  assumes "item_ok i"
  shows "place_item c i pos =
     (if is_position_valid c i pos
      then (True, placed_container c i pos, i\<lparr>position := Some (grid_to_real pos)\<rparr>)
      else (False, c, i))"
proof (cases "is_position_valid c i pos")
  case True
  obtain x y z where p: "pos = (x, y, z)" by (cases pos)
  from True p place_item_valid [OF assms, of c x y z] show ?thesis
    by (simp add: placed_container_def)
next
  case False
  then show ?thesis by (simp add: place_item_def)
qed

lemma try_containers_total:
  assumes "item_ok i"
  shows "\<exists>r. try_containers ez i cs ks = Inr r"
proof (induction ks)
  case Nil
  then show ?case by simp
next
  case (Cons k ks)
  from find_total [OF assms, of "cs ! k"] obtain r
    where r: "find_bottom_left_back_position (cs ! k) i = Inr r" by blast
  show ?case
    using Cons r by (cases r) (auto simp: place_item_eq [OF assms])
qed

lemma try_containers_shape:
  assumes "item_ok i" "try_containers ez i cs ks = Inr (cs', res)"
  shows "(res = None \<and> cs' = cs) \<or>
         (\<exists>k\<in>set ks. \<exists>pos. (ez \<longrightarrow> zone_matches (cs ! k) i) \<and>
            find_bottom_left_back_position (cs ! k) i = Inr (Some pos) \<and>
            is_position_valid (cs ! k) i pos \<and>
            cs' = cs[k := placed_container (cs ! k) i pos] \<and>
            res = Some (mk_placement i (cs ! k) (grid_to_real pos)))"
  using assms(2)
proof (induction ks)
  case Nil
  then show ?case by simp
next
  case (Cons k ks)
  from find_total [OF assms(1), of "cs ! k"] obtain r
    where r: "find_bottom_left_back_position (cs ! k) i = Inr r" by blast
  show ?case
  proof (cases "ez \<and> \<not> zone_matches (cs ! k) i")
    case True
    with Cons.prems have "try_containers ez i cs ks = Inr (cs', res)" by simp
    from Cons.IH [OF this] show ?thesis by auto
  next
    case zone: False
    show ?thesis
    proof (cases "width i > c_width (cs ! k) \<or> depth i > c_depth (cs ! k) \<or>
              height i > c_height (cs ! k)")
      case True
      with zone Cons.prems have "try_containers ez i cs ks = Inr (cs', res)" by auto
      from Cons.IH [OF this] show ?thesis by auto
    next
      case fit: False
      show ?thesis
      proof (cases r)
        case None
        with zone fit r Cons.prems have "try_containers ez i cs ks = Inr (cs', res)" by auto
        from Cons.IH [OF this] show ?thesis by auto
      next
        case (Some pos)
        show ?thesis
        proof (cases "is_position_valid (cs ! k) i pos")
          case True
          with zone fit r Some Cons.prems
          have "cs' = cs[k := placed_container (cs ! k) i pos]"
            "res = Some (mk_placement i (cs ! k) (grid_to_real pos))"
            by (auto simp: place_item_eq [OF assms(1)])
          with zone r Some True
          have "(ez \<longrightarrow> zone_matches (cs ! k) i) \<and>
            find_bottom_left_back_position (cs ! k) i = Inr (Some pos) \<and>
            is_position_valid (cs ! k) i pos \<and>
            cs' = cs[k := placed_container (cs ! k) i pos] \<and>
            res = Some (mk_placement i (cs ! k) (grid_to_real pos))" by simp
          then show ?thesis by (intro disjI2 bexI [of _ k] exI [of _ pos]) simp_all
        next
          case False
          with zone fit r Some Cons.prems have "try_containers ez i cs ks = Inr (cs', res)"
            by (auto simp: place_item_eq [OF assms(1)])
          from Cons.IH [OF this] show ?thesis by auto
        qed
      qed
    qed
  qed
qed

lemma set_matching_containers: "set (matching_containers ez cs i) \<subseteq> {..<length cs}"
  by (auto simp: matching_containers_def)

lemma find_container_Some:
  "find_container cs i p = Some k \<Longrightarrow>
     k < length cs \<and> position_fits (cs ! k) i p \<and> (\<forall>j<k. \<not> position_fits (cs ! j) i p)"
  by (auto simp: find_container_def find_Some_iff)

lemma find_container_None:
  "(find_container cs i p = None) = (\<forall>j<length cs. \<not> position_fits (cs ! j) i p)"
  by (auto simp: find_container_def find_None_iff)

lemma search_placement_total:
  assumes "item_ok i"
  shows "\<exists>st'. search_placement ez st i = Inr st'"
proof -
  obtain cs r where st: "st = (cs, r)" by (cases st)
  from try_containers_total [OF assms, of ez cs "matching_containers ez cs i"]
  obtain cs' res where "try_containers ez i cs (matching_containers ez cs i) = Inr (cs', res)"
    by auto
  then show ?thesis
    by (cases res) (auto simp: search_placement_def st Let_def)
qed

lemma pack_item_total:
  assumes "item_ok i"
  shows "\<exists>st'. pack_item ez st i = Inr st'"
  using search_placement_total [OF assms]
  by (cases st) (auto simp: pack_item_def split: option.splits)

lemma pack_loop_total:
  assumes "\<forall>i\<in>set its. item_ok i"
  shows "\<exists>st'. pack_loop ez st its = Inr st'"
  using assms
proof (induction its arbitrary: st)
  case Nil
  then show ?case by simp
next
  case (Cons i its)
  then have "item_ok i" by simp
  from pack_item_total [OF this, of ez st] obtain st1 where "pack_item ez st i = Inr st1" ..
  with Cons show ?case by simp
qed

text \<open>The three outcomes of one iteration: attached, placed by the search, or unplaced.\<close>

lemma search_placement_shape:
  assumes "item_ok i" "search_placement ez (cs, r) i = Inr (cs', r')"
  shows "(cs' = cs \<and> (\<exists>why. r' = add_unplaced r i why)) \<or>
         (\<exists>k<length cs. \<exists>pos. (ez \<longrightarrow> zone_matches (cs ! k) i) \<and>
            find_bottom_left_back_position (cs ! k) i = Inr (Some pos) \<and>
            is_position_valid (cs ! k) i pos \<and>
            cs' = cs[k := placed_container (cs ! k) i pos] \<and>
            r' = add_success r (mk_placement i (cs ! k) (grid_to_real pos)))"
proof (cases "ez \<and> matching_containers ez cs i = []")
  case True
  with assms(2) show ?thesis by (auto simp: search_placement_def Let_def)
next
  case False
  from try_containers_total [OF assms(1), of ez cs "matching_containers ez cs i"]
  obtain cs1 res where t: "try_containers ez i cs (matching_containers ez cs i) = Inr (cs1, res)"
    by auto
  from try_containers_shape [OF assms(1) t] set_matching_containers [of ez cs i]
  have sh: "(res = None \<and> cs1 = cs) \<or>
         (\<exists>k<length cs. \<exists>pos. (ez \<longrightarrow> zone_matches (cs ! k) i) \<and>
            find_bottom_left_back_position (cs ! k) i = Inr (Some pos) \<and>
            is_position_valid (cs ! k) i pos \<and>
            cs1 = cs[k := placed_container (cs ! k) i pos] \<and>
            res = Some (mk_placement i (cs ! k) (grid_to_real pos)))"
    by (auto simp: subset_iff)
  show ?thesis
  proof (cases res)
    case None
    with False t assms(2) have "cs' = cs1" "\<exists>why. r' = add_unplaced r i why"
      by (auto simp add: search_placement_def Let_def split: if_splits)
    moreover from None sh have "cs1 = cs" by auto
    ultimately show ?thesis by simp
  next
    case (Some e)
    with False t assms(2) have e: "cs' = cs1" "r' = add_success r e"
      by (simp_all add: search_placement_def Let_def split: if_splits)
    from Some sh obtain k pos where "k < length cs" "ez \<longrightarrow> zone_matches (cs ! k) i"
      "find_bottom_left_back_position (cs ! k) i = Inr (Some pos)"
      "is_position_valid (cs ! k) i pos"
      "cs1 = cs[k := placed_container (cs ! k) i pos]"
      "e = mk_placement i (cs ! k) (grid_to_real pos)" by auto
    with e show ?thesis by blast
  qed
qed

lemma pack_item_shape:
  assumes "item_ok i" "pack_item ez (cs, r) i = Inr (cs', r')"
  shows "(\<exists>k p. preassigned_target cs i = Some k \<and> position i = Some p \<and> k < length cs \<and>
            cs' = cs[k := attach_item (cs ! k) i] \<and>
            r' = add_success r (mk_placement i (cs ! k) p)) \<or>
         (preassigned_target cs i = None \<and> cs' = cs \<and> (\<exists>why. r' = add_unplaced r i why)) \<or>
         (preassigned_target cs i = None \<and>
          (\<exists>k<length cs. \<exists>pos. (ez \<longrightarrow> zone_matches (cs ! k) i) \<and>
            find_bottom_left_back_position (cs ! k) i = Inr (Some pos) \<and>
            is_position_valid (cs ! k) i pos \<and>
            cs' = cs[k := placed_container (cs ! k) i pos] \<and>
            r' = add_success r (mk_placement i (cs ! k) (grid_to_real pos))))"
proof (cases "preassigned_target cs i")
  case None
  then have "pack_item ez (cs, r) i = search_placement ez (cs, r) i"
    by (auto simp: pack_item_def preassigned_target_def split: option.splits)
  with assms(2) have "search_placement ez (cs, r) i = Inr (cs', r')" by simp
  from search_placement_shape [OF assms(1) this] None show ?thesis by auto
next
  case (Some k)
  then obtain p where p: "position i = Some p" "find_container cs i p = Some k"
    by (auto simp: preassigned_target_def split: option.splits)
  from find_container_Some [OF p(2)] have "k < length cs" by simp
  with p assms(2) Some show ?thesis by (auto simp: pack_item_def)
qed

section \<open>What a run never changes\<close>

lemma frame_attach [simp]: "frame (attach_item c i) = frame c"
  by (simp add: frame_def attach_item_def)

lemma frame_placed [simp]: "frame (placed_container c i pos) = frame c"
  by (simp add: frame_def placed_container_def)

lemma map_frame_update:
  assumes "frame c' = frame (cs ! k)"
  shows "map frame (cs[k := c']) = map frame cs"
proof (cases "k < length cs")
  case True
  with assms show ?thesis by (simp add: map_update list_update_same_conv)
next
  case False
  then have "cs[k := c'] = cs" by (simp add: list_update_beyond)
  then show ?thesis by simp
qed

lemma frame_length:
  assumes "map frame cs' = map frame cs"
  shows "length cs' = length cs"
proof -
  from assms have "length (map frame cs') = length (map frame cs)" by simp
  then show ?thesis by simp
qed

lemma frame_nth:
  assumes "map frame cs' = map frame cs" "k < length cs"
  shows "frame (cs' ! k) = frame (cs ! k)"
proof -
  have l: "length cs' = length cs" by (rule frame_length [OF assms(1)])
  from assms(1) have "map frame cs' ! k = map frame cs ! k" by simp
  with assms(2) l show ?thesis by simp
qed

lemma position_fits_frame: "frame c' = frame c \<Longrightarrow> position_fits c' i p = position_fits c i p"
  by (cases p) (simp add: position_fits_def frame_def)

lemma zone_matches_frame: "frame c' = frame c \<Longrightarrow> zone_matches c' i = zone_matches c i"
  by (simp add: zone_matches_def frame_def)

lemma find_container_frame:
  assumes "map frame cs' = map frame cs"
  shows "find_container cs' i p = find_container cs i p"
proof -
  have l: "length cs' = length cs" by (rule frame_length [OF assms])
  have "position_fits (cs' ! k) i p = position_fits (cs ! k) i p" if "k < length cs" for k
    by (rule position_fits_frame [OF frame_nth [OF assms that]])
  then have "\<forall>k\<in>set [0..<length cs]. position_fits (cs' ! k) i p = position_fits (cs ! k) i p"
    by simp
  then have "List.find (\<lambda>k. position_fits (cs' ! k) i p) [0..<length cs] =
             List.find (\<lambda>k. position_fits (cs ! k) i p) [0..<length cs]"
    by (intro find_cong) simp_all
  then show ?thesis by (simp add: find_container_def l)
qed

lemma preassigned_target_frame:
  assumes "map frame cs' = map frame cs"
  shows "preassigned_target cs' i = preassigned_target cs i"
  by (simp add: preassigned_target_def find_container_frame [OF assms] split: option.splits)

lemma pack_item_frame:
  assumes "item_ok i" "pack_item ez (cs, r) i = Inr (cs', r')"
  shows "map frame cs' = map frame cs"
proof -
  from pack_item_shape [OF assms]
  have "cs' = cs \<or> (\<exists>k c'. frame c' = frame (cs ! k) \<and> cs' = cs[k := c'])"
  proof (elim disjE exE conjE)
    fix k p
    assume "cs' = cs[k := attach_item (cs ! k) i]"
    then have "frame (attach_item (cs ! k) i) = frame (cs ! k) \<and>
               cs' = cs[k := attach_item (cs ! k) i]" by simp
    then show ?thesis by blast
  next
    assume "cs' = cs"
    then show ?thesis by simp
  next
    fix k pos
    assume "cs' = cs[k := placed_container (cs ! k) i pos]"
    then have "frame (placed_container (cs ! k) i pos) = frame (cs ! k) \<and>
               cs' = cs[k := placed_container (cs ! k) i pos]" by simp
    then show ?thesis by blast
  qed
  then show ?thesis
  proof (elim disjE exE conjE)
    assume "cs' = cs"
    then show ?thesis by simp
  next
    fix k c'
    assume "frame c' = frame (cs ! k)" "cs' = cs[k := c']"
    then show ?thesis by (simp only: map_frame_update)
  qed
qed

lemma pack_loop_induct:
  assumes "pack_loop ez st its = Inr st'" and "P st"
    and "\<And>s i s'. P s \<Longrightarrow> i \<in> set its \<Longrightarrow> pack_item ez s i = Inr s' \<Longrightarrow> P s'"
  shows "P st'"
  using assms
proof (induction its arbitrary: st)
  case Nil
  then show ?case by simp
next
  case (Cons i its)
  from Cons.prems(1) obtain s1 where s1: "pack_item ez st i = Inr s1"
    and l: "pack_loop ez s1 its = Inr st'"
    by (auto split: sum.splits)
  have i: "i \<in> set (i # its)" by simp
  have p1: "P s1" by (rule Cons.prems(3) [OF Cons.prems(2) i s1])
  have step: "\<And>s j s'. P s \<Longrightarrow> j \<in> set its \<Longrightarrow> pack_item ez s j = Inr s' \<Longrightarrow> P s'"
  proof -
    fix s j s'
    assume a: "P s" "j \<in> set its" "pack_item ez s j = Inr s'"
    from a(2) have "j \<in> set (i # its)" by simp
    from Cons.prems(3) [OF a(1) this a(3)] show "P s'" .
  qed
  show ?case by (rule Cons.IH [OF l p1 step])
qed

lemma pack_loop_frame:
  assumes "\<forall>i\<in>set its. item_ok i" "pack_loop ez (cs, r) its = Inr (cs', r')"
  shows "map frame cs' = map frame cs"
proof -
  have "map frame (fst (cs', r')) = map frame cs"
  proof (rule pack_loop_induct [OF assms(2), where P = "\<lambda>s. map frame (fst s) = map frame cs"])
    show "map frame (fst (cs, r)) = map frame cs" by simp
  next
    fix s i s'
    assume a: "map frame (fst s) = map frame cs" "i \<in> set its" "pack_item ez s i = Inr s'"
    from a(2) assms(1) have ok: "item_ok i" by simp
    from pack_item_frame [OF ok, of ez "fst s" "snd s" "fst s'" "snd s'"] a(1,3)
    show "map frame (fst s') = map frame cs" by simp
  qed
  then show ?thesis by simp
qed

section \<open>The result of a run\<close>

lemma fresh_volume:
  assumes "fresh_container c"
  shows "c_volume c \<noteq> 0"
proof -
  let ?m = "mk_Container (container_id c) (c_width c) (c_depth c) (c_height c) (zone c)"
  from assms have "c = ?m" by (simp add: fresh_container_def)
  then have "c_volume c = c_volume ?m" by simp
  then have "c_volume c = max (c_width c) 1 * max (c_depth c) 1 * max (c_height c) 1"
    by (simp add: mk_Container_def)
  moreover have "0 < max (c_width c) 1 * max (c_depth c) 1 * max (c_height c) 1"
    by (intro mult_pos_pos) simp_all
  ultimately show ?thesis by linarith
qed

lemma fresh_empty:
  assumes "fresh_container c"
  shows "items c = []" "space c = {}" "available_volume c = c_volume c"
proof -
  let ?m = "mk_Container (container_id c) (c_width c) (c_depth c) (c_height c) (zone c)"
  from assms have e: "c = ?m" by (simp add: fresh_container_def)
  from e have "items c = items ?m" by simp
  then show "items c = []" by (simp add: mk_Container_def)
  from e have "space c = space ?m" by simp
  then show "space c = {}" by (simp add: mk_Container_def)
  from e have "available_volume c = available_volume ?m" "c_volume c = c_volume ?m" by simp_all
  then show "available_volume c = c_volume c" by (simp add: mk_Container_def)
qed

lemma frame_fields:
  assumes "frame c' = frame c"
  shows "container_id c' = container_id c" "c_volume c' = c_volume c" "zone c' = zone c"
  using assms by (simp_all add: frame_def)

lemma container_statistics_eq:
  assumes "\<forall>c\<in>set cs. c_volume c \<noteq> 0"
  shows "container_statistics cs =
     Inr (map (\<lambda>c. \<lparr>s_container_id = container_id c, s_zone = zone c,
                s_items_placed = length (items c),
                s_volume_utilization = (1 - available_volume c / c_volume c) * 100,
                s_available_volume = available_volume c,
                s_total_volume = c_volume c\<rparr>) cs)"
  using assms by (induction cs) (simp_all add: container_stat_of_def)

lemma volumes_nonzero_frame:
  assumes "map frame cs' = map frame cs" "\<forall>c\<in>set cs. c_volume c \<noteq> 0"
  shows "\<forall>c\<in>set cs'. c_volume c \<noteq> 0"
proof
  fix c assume "c \<in> set cs'"
  then obtain k where k: "k < length cs'" "c = cs' ! k" by (auto simp: in_set_conv_nth)
  from frame_length [OF assms(1)] k have kl: "k < length cs" by simp
  from frame_fields(2) [OF frame_nth [OF assms(1) kl]] k assms(2) kl
  show "c_volume c \<noteq> 0" by simp
qed

text \<open>A run returns: the containers it leaves, with the statistics computed from them.\<close>

lemma pack_items_result:
  assumes ok: "\<forall>i\<in>set its. item_ok i" and fr: "\<forall>c\<in>set cs. c_volume c \<noteq> 0"
  shows "\<exists>cs' r'. pack_loop ez (cs,
              \<lparr>successful_placements = [], unplaced_items = [], container_stats = []\<rparr>)
              (sort_items its) = Inr (cs', r') \<and>
           map frame cs' = map frame cs \<and>
           pack_items (mk_ThreeDimensionalPacking cs its dbg ez) =
             Inr (cs', r'\<lparr>container_stats :=
                map (\<lambda>c. \<lparr>s_container_id = container_id c, s_zone = zone c,
                  s_items_placed = length (items c),
                  s_volume_utilization = (1 - available_volume c / c_volume c) * 100,
                  s_available_volume = available_volume c,
                  s_total_volume = c_volume c\<rparr>) cs'\<rparr>)"
proof -
  have ok': "\<forall>i\<in>set (sort_items its). item_ok i" using ok by (simp add: sort_items_def)
  from pack_loop_total [OF ok'] obtain cs' r'
    where l: "pack_loop ez (cs,
              \<lparr>successful_placements = [], unplaced_items = [], container_stats = []\<rparr>)
              (sort_items its) = Inr (cs', r')" by (metis surj_pair)
  have f: "map frame cs' = map frame cs" by (rule pack_loop_frame [OF ok' l])
  have v: "\<forall>c\<in>set cs'. c_volume c \<noteq> 0" by (rule volumes_nonzero_frame [OF f fr])
  show ?thesis
    using l f by (simp add: pack_items_def mk_ThreeDimensionalPacking_def
        container_statistics_eq [OF v])
qed

lemma scenario_fresh: "fresh_container scenario_container"
  by (simp add: fresh_container_def scenario_container_def mk_Container_def)

section \<open>Zones\<close>

lemma zones_add_unplaced:
  "zones_respected_by_search cs its (add_unplaced r i why) = zones_respected_by_search cs its r"
  by (simp add: zones_respected_by_search_def add_unplaced_def)

lemma zones_add_success:
  assumes "zones_respected_by_search cs its r" "i \<in> set its" "k < length cs"
    "p_item_id e = item_id i" "p_container_id e = container_id (cs ! k)"
    "zone_matches (cs ! k) i \<or>
       (preassigned_target cs i = Some k \<and> position i = Some (p_position e))"
  shows "zones_respected_by_search cs its (add_success r e)"
proof -
  have "\<exists>i\<in>set its. \<exists>k\<in>{..<length cs}.
        p_item_id e = item_id i \<and> p_container_id e = container_id (cs ! k) \<and>
        (zone_matches (cs ! k) i \<or>
         (preassigned_target cs i = Some k \<and> position i = Some (p_position e)))"
    using assms(2-6) by (intro bexI [of _ i] bexI [of _ k]) simp_all
  with assms(1) show ?thesis
    by (simp add: zones_respected_by_search_def add_success_def)
qed

lemma pack_item_zones:
  assumes ok: "item_ok i" and i: "i \<in> set its"
    and f: "map frame cs = map frame cs0"
    and z: "zones_respected_by_search cs0 its r"
    and p: "pack_item True (cs, r) i = Inr (cs', r')"
  shows "zones_respected_by_search cs0 its r'"
proof -
  have l: "length cs = length cs0" by (rule frame_length [OF f])
  from pack_item_shape [OF ok p] show ?thesis
  proof (elim disjE exE conjE)
    fix k q
    assume t: "preassigned_target cs i = Some k" and q: "position i = Some q"
      and k: "k < length cs" and r': "r' = add_success r (mk_placement i (cs ! k) q)"
    from k l have k0: "k < length cs0" by simp
    have fk: "frame (cs ! k) = frame (cs0 ! k)" by (rule frame_nth [OF f k0])
    have t0: "preassigned_target cs0 i = Some k"
      using preassigned_target_frame [OF f, of i] t by simp
    show ?thesis
      unfolding r'
      by (rule zones_add_success [OF z i k0])
         (simp_all add: mk_placement_def frame_fields(1) [OF fk] t0 q)
  next
    fix why
    assume "r' = add_unplaced r i why"
    with z show ?thesis by (simp add: zones_add_unplaced)
  next
    fix k pos
    assume k: "k < length cs" and zm: "True \<longrightarrow> zone_matches (cs ! k) i"
      and r': "r' = add_success r (mk_placement i (cs ! k) (grid_to_real pos))"
    from k l have k0: "k < length cs0" by simp
    have fk: "frame (cs ! k) = frame (cs0 ! k)" by (rule frame_nth [OF f k0])
    from zm zone_matches_frame [OF fk, of i] have zm0: "zone_matches (cs0 ! k) i" by simp
    show ?thesis
      unfolding r'
      by (rule zones_add_success [OF z i k0])
         (simp_all add: mk_placement_def frame_fields(1) [OF fk] zm0)
  qed
qed

lemma pack_loop_zones:
  assumes ok: "\<forall>i\<in>set its. item_ok i"
    and l: "pack_loop True (cs, r) its' = Inr (cs', r')" and sub: "set its' \<subseteq> set its"
    and z: "zones_respected_by_search cs its r"
  shows "zones_respected_by_search cs its r'"
proof -
  have "map frame (fst (cs', r')) = map frame cs \<and>
        zones_respected_by_search cs its (snd (cs', r'))"
  proof (rule pack_loop_induct [OF l, where
        P = "\<lambda>s. map frame (fst s) = map frame cs \<and> zones_respected_by_search cs its (snd s)"])
    show "map frame (fst (cs, r)) = map frame cs \<and>
          zones_respected_by_search cs its (snd (cs, r))" using z by simp
  next
    fix s i s'
    assume a: "map frame (fst s) = map frame cs \<and> zones_respected_by_search cs its (snd s)"
      and i: "i \<in> set its'" and p: "pack_item True s i = Inr s'"
    from i sub have i': "i \<in> set its" by blast
    with ok have oki: "item_ok i" by simp
    from p have p': "pack_item True (fst s, snd s) i = Inr (fst s', snd s')" by simp
    from a have f: "map frame (fst s) = map frame cs"
      and zs: "zones_respected_by_search cs its (snd s)" by simp_all
    have "map frame (fst s') = map frame (fst s)" by (rule pack_item_frame [OF oki p'])
    with f have "map frame (fst s') = map frame cs" by simp
    moreover have "zones_respected_by_search cs its (snd s')"
      by (rule pack_item_zones [OF oki i' f zs p'])
    ultimately show "map frame (fst s') = map frame cs \<and>
                     zones_respected_by_search cs its (snd s')" by simp
  qed
  then show ?thesis by simp
qed

lemma zones_stats [simp]:
  "zones_respected_by_search cs its (r\<lparr>container_stats := ss\<rparr>) =
   zones_respected_by_search cs its r"
  by (simp add: zones_respected_by_search_def)

lemma set_sort_items [simp]: "set (sort_items its) = set its"
  by (simp add: sort_items_def)

section \<open>Runs with pre-assigned items\<close>

lemmas preset_defs = preset_item_def preset_item2_def far_item_def zoneB_container_def
  unit_item_def unit_container_def mk_Item_def mk_Container_def

lemma preset_item_ok: "item_ok preset_item" "item_ok preset_item2" "item_ok far_item"
  by (simp_all add: preset_defs item_ok_def)

lemma zoneB_fresh: "fresh_container zoneB_container"
  by (simp add: fresh_container_def zoneB_container_def mk_Container_def)

lemma unit_fresh: "fresh_container unit_container"
  by (simp add: fresh_container_def unit_container_def mk_Container_def)

lemma pack_items_eval:
  assumes "pack_loop ez (cs,
              \<lparr>successful_placements = [], unplaced_items = [], container_stats = []\<rparr>)
              (sort_items its) = Inr (cs', r')"
    and "container_statistics cs' = Inr ss"
  shows "pack_items (mk_ThreeDimensionalPacking cs its dbg ez) =
         Inr (cs', r'\<lparr>container_stats := ss\<rparr>)"
  using assms by (simp add: pack_items_def mk_ThreeDimensionalPacking_def)

lemma find_container_single:
  "find_container [c] i p = (if position_fits c i p then Some 0 else None)"
  by (simp add: find_container_def)

lemma zoneB_run:
  "pack_items (mk_ThreeDimensionalPacking [zoneB_container] [preset_item] False True) =
     Inr ([attach_item zoneB_container preset_item],
          \<lparr>successful_placements =
             [\<lparr>p_item_id = ''i1'', p_container_id = ''cB'', p_position = (0, 0, 0),
               p_dimensions = (1, 1, 1)\<rparr>],
           unplaced_items = [],
           container_stats =
             [\<lparr>s_container_id = ''cB'', s_zone = ''B'', s_items_placed = 1,
               s_volume_utilization = 0, s_available_volume = 1,
               s_total_volume = 1\<rparr>]\<rparr>)"
proof -
  have p: "position preset_item = Some (0, 0, 0)" by (simp add: preset_item_def)
  have f: "position_fits zoneB_container preset_item (0, 0, 0)"
    by (simp add: position_fits_def preset_defs)
  have s: "sort_items [preset_item] = [preset_item]" by (simp add: sort_items_def)
  have l: "pack_loop True ([zoneB_container],
             \<lparr>successful_placements = [], unplaced_items = [], container_stats = []\<rparr>)
             (sort_items [preset_item]) =
           Inr ([attach_item zoneB_container preset_item],
             \<lparr>successful_placements =
               [\<lparr>p_item_id = ''i1'', p_container_id = ''cB'', p_position = (0, 0, 0),
                 p_dimensions = (1, 1, 1)\<rparr>],
              unplaced_items = [], container_stats = []\<rparr>)"
    by (simp add: s pack_item_def p find_container_single f add_success_def mk_placement_def)
       (simp add: preset_defs)
  have st: "container_statistics [attach_item zoneB_container preset_item] =
      Inr [\<lparr>s_container_id = ''cB'', s_zone = ''B'', s_items_placed = 1,
               s_volume_utilization = 0, s_available_volume = 1,
               s_total_volume = 1\<rparr>]"
    by (simp add: container_stat_of_def attach_item_def) (simp add: preset_defs)
  show ?thesis
    by (simp add: pack_items_eval [OF l st])
qed

lemma zoneB_mismatch: "\<not> zone_matches zoneB_container preset_item"
  by (simp add: zone_matches_def preset_defs)

section \<open>The balance of volumes\<close>

lemma volume_conserved_balance: "volume_conserved c = (balance c = c_volume c)"
  by (simp add: volume_conserved_def balance_def)

lemma balance_attach: "balance (attach_item c i) = balance c + volume i"
  by (simp add: balance_def attach_item_def)

lemma balance_placed: "balance (placed_container c i pos) = balance c"
  by (simp add: balance_def placed_container_def)

lemma attached_volume_Cons:
  "attached_volume cs (i # its) k =
     (if preassigned_target cs i = Some k then volume i else 0) + attached_volume cs its k"
  by (simp add: attached_volume_def)

lemma attached_volume_frame:
  assumes "map frame cs' = map frame cs"
  shows "attached_volume cs' its k = attached_volume cs its k"
  by (simp add: attached_volume_def preassigned_target_frame [OF assms])

lemma pack_item_balance:
  assumes ok: "item_ok i" and p: "pack_item ez (cs, r) i = Inr (cs', r')" and k: "k < length cs"
  shows "balance (cs' ! k) =
         balance (cs ! k) + (if preassigned_target cs i = Some k then volume i else 0)"
  using pack_item_shape [OF ok p]
proof (elim disjE exE conjE)
  fix k0 q
  assume t: "preassigned_target cs i = Some k0" and k0: "k0 < length cs"
    and c: "cs' = cs[k0 := attach_item (cs ! k0) i]"
  show ?thesis
  proof (cases "k = k0")
    case True
    with t k c show ?thesis by (simp add: balance_attach)
  next
    case False
    with t k c show ?thesis by simp
  qed
next
  assume "preassigned_target cs i = None" "cs' = cs"
  then show ?thesis by simp
next
  fix k0 pos
  assume t: "preassigned_target cs i = None" and k0: "k0 < length cs"
    and c: "cs' = cs[k0 := placed_container (cs ! k0) i pos]"
  show ?thesis
  proof (cases "k = k0")
    case True
    with t k c show ?thesis by (simp add: balance_placed)
  next
    case False
    with t k c show ?thesis by simp
  qed
qed

lemma pack_loop_balance:
  assumes "\<forall>i\<in>set its. item_ok i" "pack_loop ez (cs, r) its = Inr (cs', r')" "k < length cs"
  shows "balance (cs' ! k) = balance (cs ! k) + attached_volume cs its k"
  using assms
proof (induction its arbitrary: cs r)
  case Nil
  then show ?case by (simp add: attached_volume_def)
next
  case (Cons i its)
  from Cons.prems(1) have oki: "item_ok i" and okr: "\<forall>i\<in>set its. item_ok i" by simp_all
  from Cons.prems(2) obtain cs1 r1 where p: "pack_item ez (cs, r) i = Inr (cs1, r1)"
    and l: "pack_loop ez (cs1, r1) its = Inr (cs', r')"
    by (auto split: sum.splits)
  have f: "map frame cs1 = map frame cs" by (rule pack_item_frame [OF oki p])
  have k1: "k < length cs1" using frame_length [OF f] Cons.prems(3) by simp
  have "balance (cs' ! k) = balance (cs1 ! k) + attached_volume cs1 its k"
    by (rule Cons.IH [OF okr l k1])
  also have "attached_volume cs1 its k = attached_volume cs its k"
    by (rule attached_volume_frame [OF f])
  also have "balance (cs1 ! k) =
      balance (cs ! k) + (if preassigned_target cs i = Some k then volume i else 0)"
    by (rule pack_item_balance [OF oki p Cons.prems(3)])
  finally show ?case by (simp add: attached_volume_Cons)
qed

lemma attached_volume_sort: "attached_volume cs (sort_items its) k = attached_volume cs its k"
proof -
  let ?P = "\<lambda>i. preassigned_target cs i = Some k"
  have "mset (map volume (filter ?P (sort_items its))) = mset (map volume (filter ?P its))"
    by (simp add: sort_items_mset)
  then have "sum_mset (mset (map volume (filter ?P (sort_items its)))) =
             sum_mset (mset (map volume (filter ?P its)))" by simp
  then show ?thesis by (simp only: sum_mset_sum_list attached_volume_def)
qed

lemma attached_volume_none:
  assumes "\<forall>i\<in>set its. position i = None"
  shows "attached_volume cs its k = 0"
proof -
  have "filter (\<lambda>i. preassigned_target cs i = Some k) its = []"
    using assms by (auto simp: filter_empty_conv preassigned_target_def)
  then show ?thesis by (simp add: attached_volume_def)
qed

lemma fresh_balance: "fresh_container c \<Longrightarrow> balance c = c_volume c"
  by (simp add: balance_def fresh_empty)

section \<open>The grid and the placed items\<close>

lemma pairwise_disjoint_append:
  "pairwise_disjoint (As @ [B]) = (pairwise_disjoint As \<and> (\<forall>A\<in>set As. A \<inter> B = {}))"
  by (induction As) auto

lemma py_int_of_int: "py_int (of_int x) = x"
  by (simp add: py_int_def)

lemma grid_round_trip: "py_int (of_int x / of_int resolution * of_int resolution) = x"
proof -
  have "(of_int x :: rat) / of_int resolution * of_int resolution = of_int x"
    by (simp add: resolution_def)
  then show ?thesis by (simp only: py_int_of_int)
qed

lemma item_extent_position [simp]:
  "item_width (i\<lparr>position := q\<rparr>) = item_width i"
  "item_depth (i\<lparr>position := q\<rparr>) = item_depth i"
  "item_height (i\<lparr>position := q\<rparr>) = item_height i"
  by (simp_all add: item_width_def item_depth_def item_height_def)

lemma item_cells_placed:
  "item_cells (i\<lparr>position := Some (grid_to_real pos)\<rparr>) =
   cells pos (item_width i) (item_depth i) (item_height i)"
  by (cases pos) (simp add: item_cells_def grid_to_real_def py_int_of_int resolution_def)

lemma grid_consistent_attach:
  assumes "grid_consistent A c" "i \<in> A"
  shows "grid_consistent A (attach_item c i)"
  using assms by (simp add: grid_consistent_def attach_item_def)

lemma grid_consistent_placed:
  assumes ok: "item_ok i" and v: "is_position_valid c i pos" and g: "grid_consistent A c"
  shows "grid_consistent A (placed_container c i pos)"
proof -
  let ?i' = "i\<lparr>position := Some (grid_to_real pos)\<rparr>"
  let ?B = "cells pos (item_width i) (item_depth i) (item_height i)"
  obtain x y z where pos: "pos = (x, y, z)" by (cases pos)
  have free: "space c \<inter> ?B = {}"
    using valid_cells_free [OF ok, of c x y z] v pos by simp
  have ic: "item_cells ?i' = ?B" by (rule item_cells_placed)
  from g have marked: "\<forall>j\<in>set (items c). j \<in> A \<or> item_cells j \<subseteq> space c"
    and pd: "pairwise_disjoint (map item_cells (filter (\<lambda>j. j \<notin> A) (items c)))"
    by (simp_all add: grid_consistent_def)
  have m': "\<forall>j\<in>set (items c @ [?i']). j \<in> A \<or> item_cells j \<subseteq> space c \<union> ?B"
    using marked ic by auto
  have d: "\<forall>S\<in>set (map item_cells (filter (\<lambda>j. j \<notin> A) (items c))). S \<inter> ?B = {}"
  proof
    fix S assume "S \<in> set (map item_cells (filter (\<lambda>j. j \<notin> A) (items c)))"
    then obtain j where j: "j \<in> set (items c)" "j \<notin> A" "S = item_cells j" by auto
    with marked have "S \<subseteq> space c" by blast
    with free show "S \<inter> ?B = {}" by blast
  qed
  have pd': "pairwise_disjoint (map item_cells (filter (\<lambda>j. j \<notin> A) (items c @ [?i'])))"
  proof (cases "?i' \<in> A")
    case True
    with pd show ?thesis by simp
  next
    case False
    with pd d show ?thesis by (simp add: pairwise_disjoint_append ic)
  qed
  from m' pd' show ?thesis by (simp add: grid_consistent_def placed_container_def)
qed

lemma all_update:
  assumes "\<forall>c\<in>set cs. P c" "P c'"
  shows "\<forall>c\<in>set (cs[k := c']). P c"
proof
  fix c assume "c \<in> set (cs[k := c'])"
  then have "c \<in> insert c' (set cs)" using set_update_subset_insert by fastforce
  with assms show "P c" by auto
qed

lemma pack_item_grid:
  assumes ok: "item_ok i" and i: "i \<in> set its"
    and f: "map frame cs = map frame cs0"
    and g: "\<forall>c\<in>set cs. grid_consistent (set (filter (\<lambda>i. preassigned_target cs0 i \<noteq> None) its)) c"
    and p: "pack_item ez (cs, r) i = Inr (cs', r')"
  shows "\<forall>c\<in>set cs'. grid_consistent (set (filter (\<lambda>i. preassigned_target cs0 i \<noteq> None) its)) c"
  using pack_item_shape [OF ok p]
proof (elim disjE exE conjE)
  fix k q
  assume t: "preassigned_target cs i = Some k" and k: "k < length cs"
    and c: "cs' = cs[k := attach_item (cs ! k) i]"
  have "preassigned_target cs0 i = Some k"
    using preassigned_target_frame [OF f, of i] t by simp
  with i have a: "i \<in> set (filter (\<lambda>i. preassigned_target cs0 i \<noteq> None) its)" by simp
  from k g have "grid_consistent (set (filter (\<lambda>i. preassigned_target cs0 i \<noteq> None) its)) (cs ! k)"
    by simp
  from grid_consistent_attach [OF this a] show ?thesis
    unfolding c by (rule all_update [OF g])
next
  assume "cs' = cs"
  with g show ?thesis by simp
next
  fix k pos
  assume k: "k < length cs" and v: "is_position_valid (cs ! k) i pos"
    and c: "cs' = cs[k := placed_container (cs ! k) i pos]"
  from k g have "grid_consistent (set (filter (\<lambda>i. preassigned_target cs0 i \<noteq> None) its)) (cs ! k)"
    by simp
  from grid_consistent_placed [OF ok v this] show ?thesis
    unfolding c by (rule all_update [OF g])
qed

lemma pack_loop_grid:
  assumes ok: "\<forall>i\<in>set its. item_ok i"
    and l: "pack_loop ez (cs, r) its' = Inr (cs', r')" and sub: "set its' \<subseteq> set its"
    and g: "\<forall>c\<in>set cs. grid_consistent (set (filter (\<lambda>i. preassigned_target cs i \<noteq> None) its)) c"
  shows "\<forall>c\<in>set cs'. grid_consistent (set (filter (\<lambda>i. preassigned_target cs i \<noteq> None) its)) c"
proof -
  let ?A = "set (filter (\<lambda>i. preassigned_target cs i \<noteq> None) its)"
  have "map frame (fst (cs', r')) = map frame cs \<and>
        (\<forall>c\<in>set (fst (cs', r')). grid_consistent ?A c)"
  proof (rule pack_loop_induct [OF l, where
        P = "\<lambda>s. map frame (fst s) = map frame cs \<and> (\<forall>c\<in>set (fst s). grid_consistent ?A c)"])
    show "map frame (fst (cs, r)) = map frame cs \<and>
          (\<forall>c\<in>set (fst (cs, r)). grid_consistent ?A c)" using g by simp
  next
    fix s i s'
    assume a: "map frame (fst s) = map frame cs \<and> (\<forall>c\<in>set (fst s). grid_consistent ?A c)"
      and i: "i \<in> set its'" and p: "pack_item ez s i = Inr s'"
    from i sub have i': "i \<in> set its" by blast
    with ok have oki: "item_ok i" by simp
    from p have p': "pack_item ez (fst s, snd s) i = Inr (fst s', snd s')" by simp
    from a have f: "map frame (fst s) = map frame cs"
      and gs: "\<forall>c\<in>set (fst s). grid_consistent ?A c" by simp_all
    have "map frame (fst s') = map frame (fst s)" by (rule pack_item_frame [OF oki p'])
    with f have "map frame (fst s') = map frame cs" by simp
    moreover have "\<forall>c\<in>set (fst s'). grid_consistent ?A c"
      by (rule pack_item_grid [OF oki i' f gs p'])
    ultimately show "map frame (fst s') = map frame cs \<and>
                     (\<forall>c\<in>set (fst s'). grid_consistent ?A c)" by simp
  qed
  then show ?thesis by simp
qed

lemma fresh_grid_consistent: "fresh_container c \<Longrightarrow> grid_consistent A c"
  by (simp add: grid_consistent_def fresh_empty)

lemma no_preassigned_search_placed:
  assumes "\<forall>i\<in>set its. position i = None"
  shows "search_placed cs its c = items c"
proof -
  have "filter (\<lambda>i. preassigned_target cs i \<noteq> None) its = []"
    using assms by (auto simp: filter_empty_conv preassigned_target_def)
  then show ?thesis by (simp add: search_placed_def)
qed

section \<open>Runs that attach pre-assigned items\<close>

lemma deep_fresh: "fresh_container deep_container"
  by (simp add: fresh_container_def deep_container_def mk_Container_def)

lemma unit_preset_run:
  "\<exists>r. pack_items (mk_ThreeDimensionalPacking [unit_container] [preset_item] False ez) =
     Inr ([attach_item unit_container preset_item], r)"
proof -
  have p: "position preset_item = Some (0, 0, 0)" by (simp add: preset_item_def)
  have f: "position_fits unit_container preset_item (0, 0, 0)"
    by (simp add: position_fits_def preset_defs)
  have s: "sort_items [preset_item] = [preset_item]" by (simp add: sort_items_def)
  have l: "pack_loop ez ([unit_container],
             \<lparr>successful_placements = [], unplaced_items = [], container_stats = []\<rparr>)
             (sort_items [preset_item]) =
           Inr ([attach_item unit_container preset_item],
             add_success \<lparr>successful_placements = [], unplaced_items = [], container_stats = []\<rparr>
               (mk_placement preset_item unit_container (0, 0, 0)))"
    by (simp add: s pack_item_def p find_container_single f)
  have "c_volume (attach_item unit_container preset_item) \<noteq> 0"
    by (simp add: attach_item_def preset_defs)
  then have st: "container_statistics [attach_item unit_container preset_item] =
      Inr (map (\<lambda>c. \<lparr>s_container_id = container_id c, s_zone = zone c,
                s_items_placed = length (items c),
                s_volume_utilization = (1 - available_volume c / c_volume c) * 100,
                s_available_volume = available_volume c,
                s_total_volume = c_volume c\<rparr>) [attach_item unit_container preset_item])"
    by (intro container_statistics_eq) simp
  show ?thesis
    by (simp only: pack_items_eval [OF l st]) blast
qed

lemma unit_preset_unbalanced: "\<not> volume_conserved (attach_item unit_container preset_item)"
  by (simp add: volume_conserved_def attach_item_def preset_defs)

lemma unit_two_preset_run:
  "\<exists>r. pack_items (mk_ThreeDimensionalPacking [unit_container] [preset_item, preset_item2]
            False ez) =
     Inr ([attach_item (attach_item unit_container preset_item) preset_item2], r)"
proof -
  have p: "position preset_item = Some (0, 0, 0)" "position preset_item2 = Some (0, 0, 0)"
    by (simp_all add: preset_item_def preset_item2_def)
  have f: "position_fits unit_container preset_item (0, 0, 0)"
    "position_fits (attach_item unit_container preset_item) preset_item2 (0, 0, 0)"
    by (simp_all add: position_fits_def attach_item_def preset_defs)
  have s: "sort_items [preset_item, preset_item2] = [preset_item, preset_item2]"
    by (simp add: sort_items_def preset_defs)
  have "\<exists>r'. pack_loop ez ([unit_container],
             \<lparr>successful_placements = [], unplaced_items = [], container_stats = []\<rparr>)
             (sort_items [preset_item, preset_item2]) =
           Inr ([attach_item (attach_item unit_container preset_item) preset_item2], r')"
    by (simp add: s pack_item_def p find_container_single f)
  then obtain r' where l: "pack_loop ez ([unit_container],
             \<lparr>successful_placements = [], unplaced_items = [], container_stats = []\<rparr>)
             (sort_items [preset_item, preset_item2]) =
           Inr ([attach_item (attach_item unit_container preset_item) preset_item2], r')" ..
  have "c_volume (attach_item (attach_item unit_container preset_item) preset_item2) \<noteq> 0"
    by (simp add: attach_item_def preset_defs)
  then have st: "container_statistics
        [attach_item (attach_item unit_container preset_item) preset_item2] =
      Inr (map (\<lambda>c. \<lparr>s_container_id = container_id c, s_zone = zone c,
                s_items_placed = length (items c),
                s_volume_utilization = (1 - available_volume c / c_volume c) * 100,
                s_available_volume = available_volume c,
                s_total_volume = c_volume c\<rparr>)
           [attach_item (attach_item unit_container preset_item) preset_item2])"
    by (intro container_statistics_eq) simp
  show ?thesis
    by (simp only: pack_items_eval [OF l st]) blast
qed

lemma preset_cells:
  "item_cells preset_item = cells (0, 0, 0) 10 10 10"
  "item_cells preset_item2 = cells (0, 0, 0) 10 10 10"
  by (simp_all add: item_cells_def preset_item_def preset_item2_def unit_item_def py_int_def
      item_width_def item_depth_def item_height_def mk_Item_def resolution_def)

lemma unit_two_preset_overlap:
  "\<not> no_overlap (attach_item (attach_item unit_container preset_item) preset_item2)"
proof -
  have "(0, 0, 0) \<in> cells (0, 0, 0) 10 10 10" by (simp add: cells_def)
  then have "cells (0, 0, 0) 10 10 10 \<noteq> {}" by blast
  then show ?thesis
    by (simp add: no_overlap_def attach_item_def preset_cells)
       (simp add: unit_container_def mk_Container_def preset_cells)
qed

section \<open>A run that places two items by the search\<close>

lemma find_result_valid:
  assumes "find_bottom_left_back_position c i = Inr (Some pos)"
  shows "is_position_valid c i pos"
proof -
  from find_floor_result [OF assms]
  have "List.find (is_position_valid c i) (floor_candidates c i) = Some pos \<or>
        stacking_pass c i (stacking_candidates c i) = Inr (Some pos)" by blast
  then show ?thesis
  proof
    assume "List.find (is_position_valid c i) (floor_candidates c i) = Some pos"
    then show ?thesis by (auto simp: find_Some_iff)
  next
    assume "stacking_pass c i (stacking_candidates c i) = Inr (Some pos)"
    from stacking_pass_Some [OF this] show ?thesis by simp
  qed
qed

lemma matching_single:
  "zone_matches c i \<Longrightarrow> matching_containers ez [c] i = [0]"
  by (simp add: matching_containers_def)

text \<open>One iteration on a single container of matching zone in which the search succeeds.\<close>

lemma pack_item_single_search:
  assumes ok: "item_ok i" and n: "position i = None" and z: "zone_matches c i"
    and fit: "width i \<le> c_width c" "depth i \<le> c_depth c" "height i \<le> c_height c"
    and f: "find_bottom_left_back_position c i = Inr (Some pos)"
  shows "pack_item ez ([c], r) i =
         Inr ([placed_container c i pos], add_success r (mk_placement i c (grid_to_real pos)))"
proof -
  have v: "is_position_valid c i pos" by (rule find_result_valid [OF f])
  have t: "try_containers ez i [c] [0] =
           Inr ([placed_container c i pos], Some (mk_placement i c (grid_to_real pos)))"
    using z fit f v by (simp add: place_item_eq [OF ok])
  show ?thesis
    by (simp add: pack_item_def n search_placement_def matching_single [OF z] t
        del: try_containers.simps)
qed

lemma sort_two: "sort_items [unit_item, urgent_item] = [urgent_item, unit_item]"
  by (simp add: sort_items_def example_defs)

lemma deep_after_urgent_valid:
  "is_position_valid deep_after_urgent unit_item (0, 10, 0)"
  by (simp add: is_position_valid_iff [OF unit_item_ok] unit_item_cells resolution_def
      deep_after_urgent_def placed_container_def urgent_item_cells cells_disjoint_iff)
     (simp add: example_defs cells_disjoint_iff)

lemma find_deep_after_urgent:
  "find_bottom_left_back_position deep_after_urgent unit_item = Inr (Some (0, 10, 0))"
proof (rule find_first_floor [OF unit_item_ok])
  have "depth_cells deep_after_urgent = 20"
    by (simp add: depth_cells_def deep_after_urgent_def placed_container_def py_int_def
        resolution_def) (simp add: example_defs)
  then show "10 = (if 5 < priority unit_item then 0
             else depth_cells deep_after_urgent - item_depth unit_item)"
    by (simp add: unit_item_cells unit_dims)
  show "is_position_valid deep_after_urgent unit_item (0, 10, 0)"
    by (rule deep_after_urgent_valid)
qed

lemma deep_two_run:
  "\<exists>r. pack_items (mk_ThreeDimensionalPacking [deep_container] [unit_item, urgent_item]
            False ez) = Inr ([deep_after_both], r)"
proof -
  have z: "zone_matches deep_container urgent_item" "zone_matches deep_after_urgent unit_item"
    by (simp_all add: zone_matches_def deep_after_urgent_def placed_container_def example_defs)
  have n: "position urgent_item = None" "position unit_item = None"
    by (simp_all add: example_defs)
  have 1: "pack_item ez ([deep_container],
             \<lparr>successful_placements = [], unplaced_items = [], container_stats = []\<rparr>)
             urgent_item =
           Inr ([deep_after_urgent],
             add_success \<lparr>successful_placements = [], unplaced_items = [], container_stats = []\<rparr>
               (mk_placement urgent_item deep_container (grid_to_real (0, 0, 0))))"
    unfolding deep_after_urgent_def
    by (rule pack_item_single_search [OF urgent_item_ok n(1) z(1) _ _ _ find_deep_urgent])
       (simp_all add: example_defs)
  have 2: "pack_item ez ([deep_after_urgent], r1) unit_item =
           Inr ([deep_after_both],
             add_success r1 (mk_placement unit_item deep_after_urgent (grid_to_real (0, 10, 0))))"
    for r1
    unfolding deep_after_both_def
    by (rule pack_item_single_search [OF unit_item_ok n(2) z(2) _ _ _ find_deep_after_urgent])
       (simp_all add: deep_after_urgent_def placed_container_def example_defs)
  have "\<exists>r'. pack_loop ez ([deep_container],
             \<lparr>successful_placements = [], unplaced_items = [], container_stats = []\<rparr>)
             (sort_items [unit_item, urgent_item]) = Inr ([deep_after_both], r')"
    by (simp add: sort_two 1 2)
  then obtain r' where l: "pack_loop ez ([deep_container],
             \<lparr>successful_placements = [], unplaced_items = [], container_stats = []\<rparr>)
             (sort_items [unit_item, urgent_item]) = Inr ([deep_after_both], r')" ..
  have "c_volume deep_after_both \<noteq> 0"
    by (simp add: deep_after_both_def deep_after_urgent_def placed_container_def example_defs)
  then have st: "container_statistics [deep_after_both] =
      Inr (map (\<lambda>c. \<lparr>s_container_id = container_id c, s_zone = zone c,
                s_items_placed = length (items c),
                s_volume_utilization = (1 - available_volume c / c_volume c) * 100,
                s_available_volume = available_volume c,
                s_total_volume = c_volume c\<rparr>) [deep_after_both])"
    by (intro container_statistics_eq) simp
  show ?thesis
    by (simp only: pack_items_eval [OF l st]) blast
qed

lemma deep_after_both_items:
  "items deep_after_both =
     [urgent_item\<lparr>position := Some (0, 0, 0)\<rparr>, unit_item\<lparr>position := Some (0, 1, 0)\<rparr>]"
  by (simp add: deep_after_both_def deep_after_urgent_def placed_container_def grid_to_real_def
      resolution_def) (simp add: example_defs)

section \<open>The position an item carries into the search\<close>

lemma find_container_Some_iff:
  "(find_container cs i p = Some k) =
   (k < length cs \<and> position_fits (cs ! k) i p \<and> (\<forall>j<k. \<not> position_fits (cs ! j) i p))"
proof
  assume "find_container cs i p = Some k"
  then show "k < length cs \<and> position_fits (cs ! k) i p \<and> (\<forall>j<k. \<not> position_fits (cs ! j) i p)"
    by (rule find_container_Some)
next
  assume a: "k < length cs \<and> position_fits (cs ! k) i p \<and> (\<forall>j<k. \<not> position_fits (cs ! j) i p)"
  then have "\<exists>n<length [0..<length cs]. position_fits (cs ! ([0..<length cs] ! n)) i p \<and>
      k = [0..<length cs] ! n \<and> (\<forall>j<n. \<not> position_fits (cs ! ([0..<length cs] ! j)) i p)"
    by (intro exI [of _ k]) simp
  then show "find_container cs i p = Some k"
    by (simp only: find_container_def find_Some_iff)
qed

lemma valid_position_irrelevant [simp]:
  "is_position_valid c (i\<lparr>position := q\<rparr>) pos = is_position_valid c i pos"
  by (cases pos) (simp add: is_position_valid_def)

lemma required_support_position_irrelevant [simp]:
  "required_support (i\<lparr>position := q\<rparr>) = required_support i"
  by (simp add: required_support_def)

lemma has_support_position_irrelevant [simp]:
  "has_support c (i\<lparr>position := q\<rparr>) pos = has_support c i pos"
  by (cases pos) (simp add: has_support_def footprint_def split: sum.splits)

lemma stacking_pass_position_irrelevant [simp]:
  "stacking_pass c (i\<lparr>position := q\<rparr>) ps = stacking_pass c i ps"
  by (induction ps) (simp_all split: sum.splits)

lemma find_position_irrelevant [simp]:
  "find_bottom_left_back_position c (i\<lparr>position := q\<rparr>) = find_bottom_left_back_position c i"
proof -
  have "is_position_valid c (i\<lparr>position := q\<rparr>) = is_position_valid c i"
    by (rule ext) simp
  then show ?thesis
    by (simp add: find_bottom_left_back_position_def floor_candidates_def
        stacking_candidates_def x_range_def y_range_def z_range_def split: option.splits)
qed

lemma place_item_position_irrelevant:
  "place_item c (i\<lparr>position := q\<rparr>) pos =
     (fst (place_item c i pos), fst (snd (place_item c i pos)),
      if is_position_valid c i pos then snd (snd (place_item c i pos)) else i\<lparr>position := q\<rparr>)"
  by (cases pos) (simp add: place_item_def Let_def)

lemma zone_matches_position_irrelevant [simp]:
  "zone_matches c (i\<lparr>position := q\<rparr>) = zone_matches c i"
  by (simp add: zone_matches_def)

lemma mk_placement_position_irrelevant [simp]:
  "mk_placement (i\<lparr>position := q\<rparr>) c p = mk_placement i c p"
  by (simp add: mk_placement_def)

lemma try_containers_step_position_irrelevant:
  assumes "try_containers ez (i\<lparr>position := q\<rparr>) cs ks = try_containers ez i cs ks"
  shows "try_containers ez (i\<lparr>position := q\<rparr>) cs (k # ks) = try_containers ez i cs (k # ks)"
proof (cases "find_bottom_left_back_position (cs ! k) i")
  case (Inl e)
  with assms show ?thesis by (cases ez) simp_all
next
  case (Inr res)
  show ?thesis
  proof (cases res)
    case None
    with Inr assms show ?thesis by (cases ez) simp_all
  next
    case (Some pos)
    obtain b c' i' where pl: "place_item (cs ! k) i pos = (b, c', i')"
      by (cases "place_item (cs ! k) i pos") auto
    from Inr Some pl assms show ?thesis
      by (cases ez; cases b) (simp_all add: place_item_position_irrelevant)
  qed
qed

lemma try_containers_position_irrelevant:
  "try_containers ez (i\<lparr>position := q\<rparr>) cs ks = try_containers ez i cs ks"
proof (cases ez)
  case True
  have "try_containers True (i\<lparr>position := q\<rparr>) cs ks = try_containers True i cs ks"
  proof (induction ks)
    case Nil
    then show ?case by simp
  next
    case (Cons k ks)
    then show ?case by (rule try_containers_step_position_irrelevant)
  qed
  with True show ?thesis by simp
next
  case False
  have "try_containers False (i\<lparr>position := q\<rparr>) cs ks = try_containers False i cs ks"
  proof (induction ks)
    case Nil
    then show ?case by simp
  next
    case (Cons k ks)
    then show ?case by (rule try_containers_step_position_irrelevant)
  qed
  with False show ?thesis by simp
qed

lemma search_placement_position_irrelevant:
  "search_placement ez (cs, r) (i\<lparr>position := q\<rparr>) = search_placement ez (cs, r) i"
proof -
  have m: "matching_containers ez cs (i\<lparr>position := q\<rparr>) = matching_containers ez cs i"
    by (simp add: matching_containers_def)
  have z: "zone_text (i\<lparr>position := q\<rparr>) = zone_text i" by (simp add: zone_text_def)
  have u: "add_unplaced r' (i\<lparr>position := q\<rparr>) why = add_unplaced r' i why" for r' why
    by (simp add: add_unplaced_def)
  show ?thesis
    unfolding search_placement_def prod.case m z u try_containers_position_irrelevant ..
qed

lemma pack_item_unpositioned:
  "position i = None \<Longrightarrow> pack_item ez (cs, r) i = search_placement ez (cs, r) i"
  by (simp add: pack_item_def)

lemma unit_find_origin:
  "find_bottom_left_back_position unit_container unit_item = Inr (Some (0, 0, 0))"
proof (rule find_first_floor [OF unit_item_ok])
  have "depth_cells unit_container = 10"
    by (simp add: depth_cells_def py_int_def resolution_def example_defs)
  then show "0 = (if 5 < priority unit_item then 0
             else depth_cells unit_container - item_depth unit_item)"
    by (simp add: unit_item_cells)
  show "is_position_valid unit_container unit_item (0, 0, 0)" by (rule unit_valid_origin)
qed

text \<open>
  One iteration on an item that carries a position: attached to the first container whose
  bounds contain it, or else handed to the search, where the position plays no part.
\<close>

lemma pack_item_preassigned:
  "(k < length cs \<and> position i = Some p \<and> position_fits (cs ! k) i p \<and>
      (\<forall>j<k. \<not> position_fits (cs ! j) i p) \<longrightarrow>
      pack_item ez (cs, r) i =
        Inr (cs[k := (cs ! k)\<lparr>items := items (cs ! k) @ [i]\<rparr>],
             r\<lparr>successful_placements := successful_placements r @
                [\<lparr>p_item_id = item_id i, p_container_id = container_id (cs ! k),
                  p_position = p, p_dimensions = (width i, depth i, height i)\<rparr>]\<rparr>)) \<and>
   (position i = Some p \<and> (\<forall>j<length cs. \<not> position_fits (cs ! j) i p) \<longrightarrow>
      pack_item ez (cs, r) i = search_placement ez (cs, r) i \<and>
      pack_item ez (cs, r) i = pack_item ez (cs, r) (i\<lparr>position := None\<rparr>))"
proof (intro conjI impI)
  assume a: "k < length cs \<and> position i = Some p \<and> position_fits (cs ! k) i p \<and>
      (\<forall>j<k. \<not> position_fits (cs ! j) i p)"
  then have f: "find_container cs i p = Some k" by (simp add: find_container_Some_iff)
  from a have "position i = Some p" by simp
  with f show "pack_item ez (cs, r) i =
        Inr (cs[k := (cs ! k)\<lparr>items := items (cs ! k) @ [i]\<rparr>],
             r\<lparr>successful_placements := successful_placements r @
                [\<lparr>p_item_id = item_id i, p_container_id = container_id (cs ! k),
                  p_position = p, p_dimensions = (width i, depth i, height i)\<rparr>]\<rparr>)"
    by (simp add: pack_item_def attach_item_def add_success_def mk_placement_def)
next
  assume a: "position i = Some p \<and> (\<forall>j<length cs. \<not> position_fits (cs ! j) i p)"
  then have f: "find_container cs i p = None" by (simp add: find_container_None)
  with a show s: "pack_item ez (cs, r) i = search_placement ez (cs, r) i"
    by (simp add: pack_item_def)
  have "pack_item ez (cs, r) (i\<lparr>position := None\<rparr>) =
        search_placement ez (cs, r) (i\<lparr>position := None\<rparr>)"
    by (rule pack_item_unpositioned) simp
  with s show "pack_item ez (cs, r) i = pack_item ez (cs, r) (i\<lparr>position := None\<rparr>)"
    by (simp add: search_placement_position_irrelevant)
qed

section \<open>The sequence of attempts\<close>

text \<open>The states between the iterations: state \<open>k\<close> is the one item \<open>k\<close> is attempted in.\<close>

lemma pack_loop_states:
  assumes "pack_loop ez st xs = Inr st'"
  shows "\<exists>sts. length sts = length xs + 1 \<and> sts ! 0 = st \<and> sts ! length xs = st' \<and>
           (\<forall>k<length xs. pack_item ez (sts ! k) (xs ! k) = Inr (sts ! Suc k))"
  using assms
proof (induction xs arbitrary: st)
  case Nil
  then have "length [st] = length ([] :: Item list) + 1 \<and> [st] ! 0 = st \<and>
      [st] ! length ([] :: Item list) = st' \<and>
      (\<forall>k<length ([] :: Item list). pack_item ez ([st] ! k) ([] ! k) = Inr ([st] ! Suc k))"
    by simp
  then show ?case by (rule exI)
next
  case (Cons x xs)
  from Cons.prems obtain s1 where s1: "pack_item ez st x = Inr s1"
    and l: "pack_loop ez s1 xs = Inr st'"
    by (auto split: sum.splits)
  from Cons.IH [OF l] obtain sts where sts: "length sts = length xs + 1" "sts ! 0 = s1"
    "sts ! length xs = st'"
    "\<forall>k<length xs. pack_item ez (sts ! k) (xs ! k) = Inr (sts ! Suc k)" by blast
  have step: "\<forall>k<length (x # xs). pack_item ez ((st # sts) ! k) ((x # xs) ! k) =
      Inr ((st # sts) ! Suc k)"
  proof (intro allI impI)
    fix k assume k: "k < length (x # xs)"
    show "pack_item ez ((st # sts) ! k) ((x # xs) ! k) = Inr ((st # sts) ! Suc k)"
    proof (cases k)
      case 0
      with s1 sts(2) show ?thesis by simp
    next
      case (Suc j)
      with k have "j < length xs" by simp
      with sts(4) Suc show ?thesis by simp
    qed
  qed
  have "length (st # sts) = length (x # xs) + 1 \<and> (st # sts) ! 0 = st \<and>
      (st # sts) ! length (x # xs) = st'"
    using sts(1,3) by simp
  with step show ?case by blast
qed

text \<open>Two sequences of states that follow the same iterations from the same start coincide.\<close>

lemma attempt_states_unique:
  assumes "length sts = length xs + 1" "length sts' = length xs + 1" "sts ! 0 = sts' ! 0"
    and "\<forall>k<length xs. pack_item ez (sts ! k) (xs ! k) = Inr (sts ! Suc k)"
    and "\<forall>k<length xs. pack_item ez (sts' ! k) (xs ! k) = Inr (sts' ! Suc k)"
  shows "sts' = sts"
proof (rule nth_equalityI)
  show "length sts' = length sts" using assms(1,2) by simp
next
  fix k assume "k < length sts'"
  with assms(2) have k: "k \<le> length xs" by simp
  then show "sts' ! k = sts ! k"
  proof (induction k)
    case 0
    then show ?case using assms(3) by simp
  next
    case (Suc j)
    then have j: "j < length xs" and e: "sts' ! j = sts ! j" by simp_all
    from assms(4) j have "pack_item ez (sts ! j) (xs ! j) = Inr (sts ! Suc j)" by simp
    moreover from assms(5) j have "pack_item ez (sts' ! j) (xs ! j) = Inr (sts' ! Suc j)" by simp
    ultimately show ?case using e by simp
  qed
qed

text \<open>
  Every iteration adds exactly one record, for the item it handles: a success entry or an
  unplaced entry.
\<close>

lemma pack_item_record:
  assumes "item_ok i" "pack_item ez (cs, r) i = Inr (cs', r')"
  shows "(map p_item_id (successful_placements r') =
            map p_item_id (successful_placements r) @ [item_id i] \<and>
          map u_item_id (unplaced_items r') = map u_item_id (unplaced_items r)) \<or>
         (map p_item_id (successful_placements r') = map p_item_id (successful_placements r) \<and>
          map u_item_id (unplaced_items r') = map u_item_id (unplaced_items r) @ [item_id i])"
  using pack_item_shape [OF assms]
  by (elim disjE exE conjE) (simp_all add: add_success_def add_unplaced_def mk_placement_def)

lemma pack_loop_mask:
  assumes "\<forall>i\<in>set xs. item_ok i" "pack_loop ez (cs, r) xs = Inr (cs', r')"
  shows "\<exists>bs. length bs = length xs \<and>
     map p_item_id (successful_placements r') =
       map p_item_id (successful_placements r) @
       map item_id (map fst (filter snd (zip xs bs))) \<and>
     map u_item_id (unplaced_items r') =
       map u_item_id (unplaced_items r) @
       map item_id (map fst (filter (\<lambda>p. \<not> snd p) (zip xs bs)))"
  using assms
proof (induction xs arbitrary: cs r)
  case Nil
  then show ?case by simp
next
  case (Cons x xs)
  from Cons.prems(1) have okx: "item_ok x" and okr: "\<forall>i\<in>set xs. item_ok i" by simp_all
  from Cons.prems(2) obtain cs1 r1 where p: "pack_item ez (cs, r) x = Inr (cs1, r1)"
    and l: "pack_loop ez (cs1, r1) xs = Inr (cs', r')"
    by (auto split: sum.splits)
  from Cons.IH [OF okr l] obtain bs where bs: "length bs = length xs"
    "map p_item_id (successful_placements r') =
       map p_item_id (successful_placements r1) @
       map item_id (map fst (filter snd (zip xs bs)))"
    "map u_item_id (unplaced_items r') =
       map u_item_id (unplaced_items r1) @
       map item_id (map fst (filter (\<lambda>p. \<not> snd p) (zip xs bs)))" by blast
  from pack_item_record [OF okx p] show ?case
  proof
    assume a: "map p_item_id (successful_placements r1) =
            map p_item_id (successful_placements r) @ [item_id x] \<and>
          map u_item_id (unplaced_items r1) = map u_item_id (unplaced_items r)"
    have "length (True # bs) = length (x # xs) \<and>
     map p_item_id (successful_placements r') =
       map p_item_id (successful_placements r) @
       map item_id (map fst (filter snd (zip (x # xs) (True # bs)))) \<and>
     map u_item_id (unplaced_items r') =
       map u_item_id (unplaced_items r) @
       map item_id (map fst (filter (\<lambda>p. \<not> snd p) (zip (x # xs) (True # bs))))"
      using a bs by simp
    then show ?thesis by (rule exI)
  next
    assume a: "map p_item_id (successful_placements r1) = map p_item_id (successful_placements r) \<and>
          map u_item_id (unplaced_items r1) = map u_item_id (unplaced_items r) @ [item_id x]"
    have "length (False # bs) = length (x # xs) \<and>
     map p_item_id (successful_placements r') =
       map p_item_id (successful_placements r) @
       map item_id (map fst (filter snd (zip (x # xs) (False # bs)))) \<and>
     map u_item_id (unplaced_items r') =
       map u_item_id (unplaced_items r) @
       map item_id (map fst (filter (\<lambda>p. \<not> snd p) (zip (x # xs) (False # bs))))"
      using a bs by simp
    then show ?thesis by (rule exI)
  qed
qed

lemma pack_items_sorted_input:
  assumes "sort_items its2 = sort_items its"
  shows "pack_items (mk_ThreeDimensionalPacking cs its2 dbg2 ez) =
         pack_items (mk_ThreeDimensionalPacking cs its dbg ez)"
  using assms by (simp add: pack_items_def mk_ThreeDimensionalPacking_def)

text \<open>The run of the two items in the deep container, with its entries.\<close>

lemma deep_two_loop:
  "pack_loop ez ([deep_container],
             \<lparr>successful_placements = [], unplaced_items = [], container_stats = []\<rparr>)
             (sort_items [unit_item, urgent_item]) =
   Inr ([deep_after_both],
        \<lparr>successful_placements =
           [mk_placement urgent_item deep_container (grid_to_real (0, 0, 0)),
            mk_placement unit_item deep_after_urgent (grid_to_real (0, 10, 0))],
         unplaced_items = [], container_stats = []\<rparr>)"
proof -
  have z: "zone_matches deep_container urgent_item" "zone_matches deep_after_urgent unit_item"
    by (simp_all add: zone_matches_def deep_after_urgent_def placed_container_def example_defs)
  have n: "position urgent_item = None" "position unit_item = None"
    by (simp_all add: example_defs)
  have 1: "pack_item ez ([deep_container],
             \<lparr>successful_placements = [], unplaced_items = [], container_stats = []\<rparr>)
             urgent_item =
           Inr ([deep_after_urgent],
             add_success \<lparr>successful_placements = [], unplaced_items = [], container_stats = []\<rparr>
               (mk_placement urgent_item deep_container (grid_to_real (0, 0, 0))))"
    unfolding deep_after_urgent_def
    by (rule pack_item_single_search [OF urgent_item_ok n(1) z(1) _ _ _ find_deep_urgent])
       (simp_all add: example_defs)
  have 2: "pack_item ez ([deep_after_urgent], r1) unit_item =
           Inr ([deep_after_both],
             add_success r1 (mk_placement unit_item deep_after_urgent (grid_to_real (0, 10, 0))))"
    for r1
    unfolding deep_after_both_def
    by (rule pack_item_single_search [OF unit_item_ok n(2) z(2) _ _ _ find_deep_after_urgent])
       (simp_all add: deep_after_urgent_def placed_container_def example_defs)
  show ?thesis
    by (simp add: sort_two 1 2 add_success_def)
qed

lemma deep_two_records:
  "\<exists>cs' r. pack_items (mk_ThreeDimensionalPacking [deep_container] [unit_item, urgent_item]
            False ez) = Inr (cs', r) \<and>
     map p_item_id (successful_placements r) = [''i2'', ''i1''] \<and>
     map p_position (successful_placements r) = [(0, 0, 0), (0, 1, 0)] \<and>
     unplaced_items r = []"
proof -
  have "c_volume deep_after_both \<noteq> 0"
    by (simp add: deep_after_both_def deep_after_urgent_def placed_container_def example_defs)
  then have st: "container_statistics [deep_after_both] =
      Inr (map (\<lambda>c. \<lparr>s_container_id = container_id c, s_zone = zone c,
                s_items_placed = length (items c),
                s_volume_utilization = (1 - available_volume c / c_volume c) * 100,
                s_available_volume = available_volume c,
                s_total_volume = c_volume c\<rparr>) [deep_after_both])"
    by (intro container_statistics_eq) simp
  show ?thesis
    by (simp add: pack_items_eval [OF deep_two_loop st] mk_placement_def grid_to_real_def
        resolution_def) (simp add: example_defs)
qed


section \<open>The search does not read the lists of items\<close>

lemma grid_view_items: "grid_view d = grid_view c \<Longrightarrow> d = c\<lparr>items := items d\<rparr>"
  by (cases c; cases d) (simp add: grid_view_def frame_def)

lemma grid_view_frame: "grid_view d = grid_view c \<Longrightarrow> frame d = frame c"
  by (simp add: grid_view_def)

lemma valid_items_irrelevant:
  "is_position_valid (c\<lparr>items := l\<rparr>) i pos = is_position_valid c i pos"
  by (cases pos) (simp add: is_position_valid_def slice3_def width_cells_def depth_cells_def
      height_cells_def)

lemma count_support_items_irrelevant:
  "count_support (c\<lparr>items := l\<rparr>) z ps n = count_support c z ps n"
proof (induction ps arbitrary: n)
  case Nil
  then show ?case by simp
next
  case (Cons a ps)
  then show ?case
    by (cases a) (simp add: space_get_def width_cells_def depth_cells_def height_cells_def
        split: sum.splits)
qed

lemma stacking_pass_items_irrelevant:
  "stacking_pass (c\<lparr>items := l\<rparr>) i ps = stacking_pass c i ps"
proof (induction ps)
  case Nil
  then show ?case by simp
next
  case (Cons p ps)
  have "has_support (c\<lparr>items := l\<rparr>) i p = has_support c i p"
    by (cases p) (simp add: has_support_def count_support_items_irrelevant)
  with Cons show ?case by (simp add: valid_items_irrelevant split: sum.splits)
qed

lemma find_items_irrelevant:
  "find_bottom_left_back_position (c\<lparr>items := l\<rparr>) i = find_bottom_left_back_position c i"
proof -
  have v: "is_position_valid (c\<lparr>items := l\<rparr>) i = is_position_valid c i"
    by (rule ext) (rule valid_items_irrelevant)
  have r: "x_range (c\<lparr>items := l\<rparr>) i = x_range c i" "y_range (c\<lparr>items := l\<rparr>) i = y_range c i"
    "z_range (c\<lparr>items := l\<rparr>) i = z_range c i"
    by (simp_all add: x_range_def y_range_def z_range_def width_cells_def depth_cells_def
        height_cells_def)
  show ?thesis
    by (simp add: find_bottom_left_back_position_def floor_candidates_def
        stacking_candidates_def v r stacking_pass_items_irrelevant split: option.splits)
qed

lemma find_grid_view:
  assumes "grid_view d = grid_view c"
  shows "find_bottom_left_back_position d i = find_bottom_left_back_position c i"
proof -
  have "find_bottom_left_back_position (c\<lparr>items := items d\<rparr>) i =
        find_bottom_left_back_position c i" by (rule find_items_irrelevant)
  with grid_view_items [OF assms] show ?thesis by simp
qed

lemma valid_grid_view:
  assumes "grid_view d = grid_view c"
  shows "is_position_valid d i pos = is_position_valid c i pos"
proof -
  have "is_position_valid (c\<lparr>items := items d\<rparr>) i pos = is_position_valid c i pos"
    by (rule valid_items_irrelevant)
  with grid_view_items [OF assms] show ?thesis by simp
qed

lemma grid_view_placed:
  assumes "grid_view d = grid_view c"
  shows "grid_view (placed_container d i pos) = grid_view (placed_container c i pos)"
  using assms by (simp add: grid_view_def placed_container_def frame_def)

lemma grid_view_attach: "grid_view (attach_item c i) = grid_view c"
  by (simp add: grid_view_def attach_item_def frame_def)

lemma grid_view_nth:
  assumes "map grid_view cs2 = map grid_view cs1" "k < length cs1"
  shows "grid_view (cs2 ! k) = grid_view (cs1 ! k)"
proof -
  from assms(1) have "length (map grid_view cs2) = length (map grid_view cs1)" by simp
  then have l: "length cs2 = length cs1" by simp
  from assms(1) have "map grid_view cs2 ! k = map grid_view cs1 ! k" by simp
  with assms(2) l show ?thesis by simp
qed

lemma grid_view_length:
  assumes "map grid_view cs2 = map grid_view cs1"
  shows "length cs2 = length cs1"
proof -
  from assms have "length (map grid_view cs2) = length (map grid_view cs1)" by simp
  then show ?thesis by simp
qed

lemma grid_view_map_frame:
  assumes "map grid_view cs2 = map grid_view cs1"
  shows "map frame cs2 = map frame cs1"
proof -
  from assms have "map fst (map grid_view cs2) = map fst (map grid_view cs1)" by simp
  then show ?thesis by (simp add: grid_view_def comp_def)
qed

lemma grid_view_update:
  assumes "map grid_view cs2 = map grid_view cs1" "grid_view d = grid_view c"
  shows "map grid_view (cs2[k := d]) = map grid_view (cs1[k := c])"
  using assms by (simp add: map_update)

lemma try_containers_grid:
  assumes ok: "item_ok i" and g: "map grid_view cs2 = map grid_view cs1"
    and ks: "\<forall>k\<in>set ks. k < length cs1"
  shows "(try_containers ez i cs1 ks = Inr (cs1, None) \<and>
          try_containers ez i cs2 ks = Inr (cs2, None)) \<or>
         (\<exists>k<length cs1. \<exists>pos.
            try_containers ez i cs1 ks =
              Inr (cs1[k := placed_container (cs1 ! k) i pos],
                   Some (mk_placement i (cs1 ! k) (grid_to_real pos))) \<and>
            try_containers ez i cs2 ks =
              Inr (cs2[k := placed_container (cs2 ! k) i pos],
                   Some (mk_placement i (cs1 ! k) (grid_to_real pos))))"
  using ks
proof (induction ks)
  case Nil
  then show ?case by simp
next
  case (Cons k ks)
  then have kl: "k < length cs1" and rest: "\<forall>k\<in>set ks. k < length cs1" by simp_all
  note IH = Cons.IH [OF rest]
  have gv: "grid_view (cs2 ! k) = grid_view (cs1 ! k)" by (rule grid_view_nth [OF g kl])
  then have fr: "frame (cs2 ! k) = frame (cs1 ! k)" by (rule grid_view_frame)
  have z: "zone_matches (cs2 ! k) i = zone_matches (cs1 ! k) i"
    by (rule zone_matches_frame [OF fr])
  from fr have d: "c_width (cs2 ! k) = c_width (cs1 ! k)" "c_depth (cs2 ! k) = c_depth (cs1 ! k)"
    "c_height (cs2 ! k) = c_height (cs1 ! k)" "container_id (cs2 ! k) = container_id (cs1 ! k)"
    by (simp_all add: frame_def)
  have f: "find_bottom_left_back_position (cs2 ! k) i = find_bottom_left_back_position (cs1 ! k) i"
    by (rule find_grid_view [OF gv])
  have v: "is_position_valid (cs2 ! k) i pos = is_position_valid (cs1 ! k) i pos" for pos
    by (rule valid_grid_view [OF gv])
  have m: "mk_placement i (cs2 ! k) q = mk_placement i (cs1 ! k) q" for q
    by (simp add: mk_placement_def d)
  from find_total [OF ok, of "cs1 ! k"] obtain res
    where res: "find_bottom_left_back_position (cs1 ! k) i = Inr res" by blast
  show ?case
  proof (cases "(ez \<and> \<not> zone_matches (cs1 ! k) i) \<or> width i > c_width (cs1 ! k) \<or>
      depth i > c_depth (cs1 ! k) \<or> height i > c_height (cs1 ! k)")
    case True
    then have "try_containers ez i cs1 (k # ks) = try_containers ez i cs1 ks"
      "try_containers ez i cs2 (k # ks) = try_containers ez i cs2 ks"
      by (auto simp: z d)
    with IH show ?thesis by simp
  next
    case skip: False
    show ?thesis
    proof (cases res)
      case None
      with skip res have "try_containers ez i cs1 (k # ks) = try_containers ez i cs1 ks"
        "try_containers ez i cs2 (k # ks) = try_containers ez i cs2 ks"
        by (auto simp: z d f)
      with IH show ?thesis by simp
    next
      case (Some pos)
      show ?thesis
      proof (cases "is_position_valid (cs1 ! k) i pos")
        case False
        with skip res Some
        have "try_containers ez i cs1 (k # ks) = try_containers ez i cs1 ks"
          "try_containers ez i cs2 (k # ks) = try_containers ez i cs2 ks"
          by (auto simp: z d f v place_item_eq [OF ok])
        with IH show ?thesis by simp
      next
        case True
        with skip res Some
        have "try_containers ez i cs1 (k # ks) =
              Inr (cs1[k := placed_container (cs1 ! k) i pos],
                   Some (mk_placement i (cs1 ! k) (grid_to_real pos)))"
          "try_containers ez i cs2 (k # ks) =
              Inr (cs2[k := placed_container (cs2 ! k) i pos],
                   Some (mk_placement i (cs1 ! k) (grid_to_real pos)))"
          by (auto simp: z d f v m place_item_eq [OF ok])
        with kl show ?thesis by blast
      qed
    qed
  qed
qed


lemma insort_key_agree:
  assumes "f x = g x" "\<forall>y\<in>set ys. f y = g y"
  shows "insort_key f x ys = insort_key g x ys"
  using assms by (induction ys) simp_all

lemma sort_key_agree:
  assumes "\<forall>x\<in>set xs. f x = g x"
  shows "sort_key f xs = sort_key g xs"
  using assms
proof (induction xs)
  case Nil
  then show ?case by simp
next
  case (Cons x xs)
  then have e: "sort_key f xs = sort_key g xs" by simp
  have "insort_key f x (sort_key g xs) = insort_key g x (sort_key g xs)"
    by (rule insort_key_agree) (use Cons.prems in simp_all)
  with e show ?case by (simp add: sort_key_simps)
qed

lemma matching_containers_frame:
  assumes "map frame cs2 = map frame cs1"
  shows "matching_containers ez cs2 i = matching_containers ez cs1 i"
proof -
  have l: "length cs2 = length cs1" by (rule frame_length [OF assms])
  have z: "\<forall>k\<in>set [0..<length cs1]. zone_matches (cs2 ! k) i = zone_matches (cs1 ! k) i"
  proof
    fix k
    assume "k \<in> set [0..<length cs1]"
    then have "k < length cs1" by simp
    from zone_matches_frame [OF frame_nth [OF assms this]]
    show "zone_matches (cs2 ! k) i = zone_matches (cs1 ! k) i" .
  qed
  have a: "filter (\<lambda>k. zone_matches (cs2 ! k) i) [0..<length cs1] =
           filter (\<lambda>k. zone_matches (cs1 ! k) i) [0..<length cs1]"
    by (rule filter_cong [OF refl]) (use z in simp)
  have b: "sort_key (\<lambda>k. if zone_matches (cs2 ! k) i then 0 else 1 :: nat) [0..<length cs1] =
           sort_key (\<lambda>k. if zone_matches (cs1 ! k) i then 0 else 1 :: nat) [0..<length cs1]"
    by (rule sort_key_agree) (use z in simp)
  show ?thesis by (simp add: matching_containers_def l a b)
qed

lemma search_placement_eq:
  "search_placement ez (cs, r) i =
     (if ez \<and> matching_containers ez cs i = []
      then Inr (cs, add_unplaced r i (''No containers available with matching zone '' @ zone_text i))
      else (case try_containers ez i cs (matching_containers ez cs i) of
         Inl e \<Rightarrow> Inl e
       | Inr (cs', Some e) \<Rightarrow> Inr (cs', add_success r e)
       | Inr (cs', None) \<Rightarrow> Inr (cs', add_unplaced r i ''No suitable position found'')))"
  by (cases ez) (simp_all add: search_placement_def Let_def split: sum.splits option.splits)

lemma search_placement_grid:
  assumes ok: "item_ok i" and g: "map grid_view cs2 = map grid_view cs1"
  shows "(\<exists>why. search_placement ez (cs1, r1) i = Inr (cs1, add_unplaced r1 i why) \<and>
            search_placement ez (cs2, r2) i = Inr (cs2, add_unplaced r2 i why)) \<or>
         (\<exists>k<length cs1. \<exists>pos.
            search_placement ez (cs1, r1) i =
              Inr (cs1[k := placed_container (cs1 ! k) i pos],
                   add_success r1 (mk_placement i (cs1 ! k) (grid_to_real pos))) \<and>
            search_placement ez (cs2, r2) i =
              Inr (cs2[k := placed_container (cs2 ! k) i pos],
                   add_success r2 (mk_placement i (cs1 ! k) (grid_to_real pos))))"
proof -
  have m: "matching_containers ez cs2 i = matching_containers ez cs1 i"
    by (rule matching_containers_frame [OF grid_view_map_frame [OF g]])
  have ks: "\<forall>k\<in>set (matching_containers ez cs1 i). k < length cs1"
    using set_matching_containers [of ez cs1 i] by auto
  show ?thesis
  proof (cases "ez \<and> matching_containers ez cs1 i = []")
    case True
    have True2: "ez \<and> matching_containers ez cs2 i = []" unfolding m by (rule True)
    have "search_placement ez (cs1, r1) i = Inr (cs1, add_unplaced r1 i
        (''No containers available with matching zone '' @ zone_text i))"
      by (subst search_placement_eq) (rule if_P [OF True])
    moreover have "search_placement ez (cs2, r2) i = Inr (cs2, add_unplaced r2 i
        (''No containers available with matching zone '' @ zone_text i))"
      by (subst search_placement_eq) (rule if_P [OF True2])
    ultimately show ?thesis by blast
  next
    case False
    have False2: "\<not> (ez \<and> matching_containers ez cs2 i = [])" unfolding m by (rule False)
    from try_containers_grid [OF ok g ks, of ez]
    show ?thesis
    proof (elim disjE exE conjE)
      assume t: "try_containers ez i cs1 (matching_containers ez cs1 i) = Inr (cs1, None)"
        "try_containers ez i cs2 (matching_containers ez cs1 i) = Inr (cs2, None)"
      have "search_placement ez (cs1, r1) i = Inr (cs1, add_unplaced r1 i
          ''No suitable position found'')"
        by (subst search_placement_eq, subst if_not_P [OF False]) (simp add: t)
      moreover have "search_placement ez (cs2, r2) i = Inr (cs2, add_unplaced r2 i
          ''No suitable position found'')"
        by (subst search_placement_eq, subst if_not_P [OF False2]) (simp add: t m)
      ultimately show ?thesis by blast
    next
      fix k pos
      assume kl: "k < length cs1"
        and t: "try_containers ez i cs1 (matching_containers ez cs1 i) =
              Inr (cs1[k := placed_container (cs1 ! k) i pos],
                   Some (mk_placement i (cs1 ! k) (grid_to_real pos)))"
        "try_containers ez i cs2 (matching_containers ez cs1 i) =
              Inr (cs2[k := placed_container (cs2 ! k) i pos],
                   Some (mk_placement i (cs1 ! k) (grid_to_real pos)))"
      have "search_placement ez (cs1, r1) i =
              Inr (cs1[k := placed_container (cs1 ! k) i pos],
                   add_success r1 (mk_placement i (cs1 ! k) (grid_to_real pos)))"
        by (subst search_placement_eq, subst if_not_P [OF False]) (simp add: t)
      moreover have "search_placement ez (cs2, r2) i =
              Inr (cs2[k := placed_container (cs2 ! k) i pos],
                   add_success r2 (mk_placement i (cs1 ! k) (grid_to_real pos)))"
        by (subst search_placement_eq, subst if_not_P [OF False2]) (simp add: t m)
      ultimately show ?thesis using kl by blast
    qed
  qed
qed


lemma items_placed_update:
  assumes "k < length cs1"
  shows "items (cs1[k := placed_container (cs1 ! k) i pos] ! j) =
         items (cs1 ! j) @ (if j = k then [i\<lparr>position := Some (grid_to_real pos)\<rparr>] else [])"
  using assms by (cases "j = k") (simp_all add: placed_container_def)

lemma items_attach_update:
  assumes "k < length cs1"
  shows "items (cs1[k := attach_item (cs1 ! k) i] ! j) =
         items (cs1 ! j) @ (if j = k then [i] else [])"
  using assms by (cases "j = k") (simp_all add: attach_item_def)

lemma pack_loop_filtered:
  assumes ok: "\<forall>i\<in>set xs. item_ok i"
  shows "\<exists>cs1 r1 cs2 r2.
     pack_loop ez (cs, r0) xs = Inr (cs1, r1) \<and>
     pack_loop ez (cs, r0) (filter (\<lambda>i. preassigned_target cs i = None) xs) = Inr (cs2, r2) \<and>
     map frame cs1 = map frame cs \<and>
     map grid_view cs2 = map grid_view cs1 \<and>
     (\<forall>k<length cs. mset (items (cs1 ! k)) =
        mset (items (cs2 ! k)) + mset (filter (\<lambda>i. preassigned_target cs i = Some k) xs)) \<and>
     mset (successful_placements r1) =
       mset (successful_placements r2) + mset (attached_entries cs xs) \<and>
     unplaced_items r1 = unplaced_items r2"
  using ok
proof (induction xs rule: rev_induct)
  case Nil
  show ?case
    by (rule exI [of _ cs], rule exI [of _ r0], rule exI [of _ cs], rule exI [of _ r0])
       (simp add: attached_entries_def)
next
  case (snoc i xs)
  then have oki: "item_ok i" and okx: "\<forall>i\<in>set xs. item_ok i" by simp_all
  from snoc.IH [OF okx] obtain cs1 r1 cs2 r2 where
    l1: "pack_loop ez (cs, r0) xs = Inr (cs1, r1)" and
    l2: "pack_loop ez (cs, r0) (filter (\<lambda>i. preassigned_target cs i = None) xs) = Inr (cs2, r2)" and
    f1: "map frame cs1 = map frame cs" and
    g: "map grid_view cs2 = map grid_view cs1" and
    it: "\<forall>k<length cs. mset (items (cs1 ! k)) =
        mset (items (cs2 ! k)) + mset (filter (\<lambda>i. preassigned_target cs i = Some k) xs)" and
    su: "mset (successful_placements r1) =
       mset (successful_placements r2) + mset (attached_entries cs xs)" and
    un: "unplaced_items r1 = unplaced_items r2"
    by blast
  have f2: "map frame cs2 = map frame cs" using grid_view_map_frame [OF g] f1 by simp
  have len1: "length cs1 = length cs" by (rule frame_length [OF f1])
  have len2: "length cs2 = length cs" by (rule frame_length [OF f2])
  have step1: "pack_loop ez (cs, r0) (xs @ [i]) = pack_item ez (cs1, r1) i"
    by (simp add: pack_loop_append l1 split: sum.splits)
  show ?case
  proof (cases "preassigned_target cs i")
    case None
    have step2: "pack_loop ez (cs, r0) (filter (\<lambda>i. preassigned_target cs i = None) (xs @ [i])) =
        pack_item ez (cs2, r2) i"
      using None by (simp add: pack_loop_append l2 split: sum.splits)
    have t1: "preassigned_target cs1 i = None"
      using preassigned_target_frame [OF f1, of i] None by simp
    have t2: "preassigned_target cs2 i = None"
      using preassigned_target_frame [OF f2, of i] None by simp
    have p1: "pack_item ez (cs1, r1) i = search_placement ez (cs1, r1) i"
      using t1 by (auto simp: pack_item_def preassigned_target_def split: option.splits)
    have p2: "pack_item ez (cs2, r2) i = search_placement ez (cs2, r2) i"
      using t2 by (auto simp: pack_item_def preassigned_target_def split: option.splits)
    have ae: "attached_entries cs (xs @ [i]) = attached_entries cs xs"
      using None by (auto simp add: attached_entries_def preassigned_target_def
          split: option.splits)
    have fk: "filter (\<lambda>i. preassigned_target cs i = Some k) (xs @ [i]) =
              filter (\<lambda>i. preassigned_target cs i = Some k) xs" for k
      using None by simp
    from search_placement_grid [OF oki g, of ez r1 r2] show ?thesis
    proof (elim disjE exE conjE)
      fix why
      assume s: "search_placement ez (cs1, r1) i = Inr (cs1, add_unplaced r1 i why)"
        "search_placement ez (cs2, r2) i = Inr (cs2, add_unplaced r2 i why)"
      have a: "mset (successful_placements (add_unplaced r1 i why)) =
           mset (successful_placements (add_unplaced r2 i why)) +
           mset (attached_entries cs (xs @ [i]))"
        using su by (simp add: ae add_unplaced_def)
      have b: "unplaced_items (add_unplaced r1 i why) = unplaced_items (add_unplaced r2 i why)"
        using un by (simp add: add_unplaced_def)
      have c: "\<forall>k<length cs. mset (items (cs1 ! k)) =
          mset (items (cs2 ! k)) +
          mset (filter (\<lambda>i. preassigned_target cs i = Some k) (xs @ [i]))"
        using it by (simp only: fk)
      have d: "pack_loop ez (cs, r0) (xs @ [i]) = Inr (cs1, add_unplaced r1 i why)"
        "pack_loop ez (cs, r0) (filter (\<lambda>i. preassigned_target cs i = None) (xs @ [i])) =
           Inr (cs2, add_unplaced r2 i why)"
        by (simp_all only: step1 step2 p1 p2 s)
      show ?thesis
        by (rule exI [of _ cs1], rule exI [of _ "add_unplaced r1 i why"],
            rule exI [of _ cs2], rule exI [of _ "add_unplaced r2 i why"], intro conjI)
           (rule d f1 g c a b)+
    next
      fix k pos
      assume kl: "k < length cs1"
        and s: "search_placement ez (cs1, r1) i =
              Inr (cs1[k := placed_container (cs1 ! k) i pos],
                   add_success r1 (mk_placement i (cs1 ! k) (grid_to_real pos)))"
          "search_placement ez (cs2, r2) i =
              Inr (cs2[k := placed_container (cs2 ! k) i pos],
                   add_success r2 (mk_placement i (cs1 ! k) (grid_to_real pos)))"
      let ?c1 = "cs1[k := placed_container (cs1 ! k) i pos]"
      let ?c2 = "cs2[k := placed_container (cs2 ! k) i pos]"
      let ?e = "mk_placement i (cs1 ! k) (grid_to_real pos)"
      from kl len1 len2 have kl2: "k < length cs2" by simp
      have a: "mset (successful_placements (add_success r1 ?e)) =
           mset (successful_placements (add_success r2 ?e)) +
           mset (attached_entries cs (xs @ [i]))"
        using su by (simp add: ae add_success_def)
      have b: "unplaced_items (add_success r1 ?e) = unplaced_items (add_success r2 ?e)"
        using un by (simp add: add_success_def)
      have c: "\<forall>j<length cs. mset (items (?c1 ! j)) =
          mset (items (?c2 ! j)) +
          mset (filter (\<lambda>i. preassigned_target cs i = Some j) (xs @ [i]))"
      proof (intro allI impI)
        fix j
        assume "j < length cs"
        with it have "mset (items (cs1 ! j)) =
          mset (items (cs2 ! j)) + mset (filter (\<lambda>i. preassigned_target cs i = Some j) xs)"
          by simp
        then show "mset (items (?c1 ! j)) =
          mset (items (?c2 ! j)) +
          mset (filter (\<lambda>i. preassigned_target cs i = Some j) (xs @ [i]))"
          by (simp only: fk items_placed_update [OF kl] items_placed_update [OF kl2]) simp
      qed
      have d: "pack_loop ez (cs, r0) (xs @ [i]) = Inr (?c1, add_success r1 ?e)"
        "pack_loop ez (cs, r0) (filter (\<lambda>i. preassigned_target cs i = None) (xs @ [i])) =
           Inr (?c2, add_success r2 ?e)"
        by (simp_all only: step1 step2 p1 p2 s)
      have f: "map frame ?c1 = map frame cs"
        using map_frame_update [of "placed_container (cs1 ! k) i pos" cs1 k] f1 by simp
      have g': "map grid_view ?c2 = map grid_view ?c1"
        by (rule grid_view_update [OF g grid_view_placed [OF grid_view_nth [OF g kl]]])
      show ?thesis
        by (rule exI [of _ ?c1], rule exI [of _ "add_success r1 ?e"],
            rule exI [of _ ?c2], rule exI [of _ "add_success r2 ?e"], intro conjI)
           (rule d f g' c a b)+
    qed
  next
    case (Some k)
    then obtain p where p: "position i = Some p" "find_container cs i p = Some k"
      by (auto simp: preassigned_target_def split: option.splits)
    from find_container_Some [OF p(2)] have klc: "k < length cs" by simp
    with len1 have kl: "k < length cs1" by simp
    have fc: "find_container cs1 i p = Some k"
      using find_container_frame [OF f1, of i p] p(2) by simp
    from frame_nth [OF f1 klc] have cid: "container_id (cs1 ! k) = container_id (cs ! k)"
      by (simp add: frame_def)
    let ?c1 = "cs1[k := attach_item (cs1 ! k) i]"
    let ?e = "mk_placement i (cs ! k) p"
    have pi: "pack_item ez (cs1, r1) i = Inr (?c1, add_success r1 ?e)"
      using p(1) fc cid by (simp add: pack_item_def mk_placement_def)
    have d1: "pack_loop ez (cs, r0) (xs @ [i]) = Inr (?c1, add_success r1 ?e)"
      by (simp only: step1 pi)
    have d2: "pack_loop ez (cs, r0) (filter (\<lambda>i. preassigned_target cs i = None) (xs @ [i])) =
        Inr (cs2, r2)"
      using Some l2 by simp
    have ae: "attached_entries cs (xs @ [i]) = attached_entries cs xs @ [?e]"
      using p by (simp add: attached_entries_def)
    have a: "mset (successful_placements (add_success r1 ?e)) =
           mset (successful_placements r2) + mset (attached_entries cs (xs @ [i]))"
      using su by (simp add: ae add_success_def)
    have b: "unplaced_items (add_success r1 ?e) = unplaced_items r2"
      using un by (simp add: add_success_def)
    have c: "\<forall>j<length cs. mset (items (?c1 ! j)) =
          mset (items (cs2 ! j)) +
          mset (filter (\<lambda>i. preassigned_target cs i = Some j) (xs @ [i]))"
    proof (intro allI impI)
      fix j
      assume "j < length cs"
      with it have "mset (items (cs1 ! j)) =
          mset (items (cs2 ! j)) + mset (filter (\<lambda>i. preassigned_target cs i = Some j) xs)"
        by simp
      then show "mset (items (?c1 ! j)) =
          mset (items (cs2 ! j)) +
          mset (filter (\<lambda>i. preassigned_target cs i = Some j) (xs @ [i]))"
        using Some by (simp only: items_attach_update [OF kl]) auto
    qed
    have f: "map frame ?c1 = map frame cs"
      using map_frame_update [of "attach_item (cs1 ! k) i" cs1 k] f1 by simp
    have "(map grid_view cs1)[k := map grid_view cs1 ! k] = map grid_view cs1"
      by (rule list_update_id)
    with kl have "map grid_view ?c1 = map grid_view cs1"
      by (simp add: map_update grid_view_attach)
    with g have g': "map grid_view cs2 = map grid_view ?c1" by simp
    show ?thesis
      by (rule exI [of _ ?c1], rule exI [of _ "add_success r1 ?e"],
          rule exI [of _ cs2], rule exI [of _ r2], intro conjI)
         (rule d1 d2 f g' c a b)+
  qed
qed

section \<open>Runs without the attached items and without the positions that fit nowhere\<close>

lemma insort_key_map_agree:
  assumes "\<And>x. f (g x) = f x"
  shows "insort_key f (g x) (map g ys) = map g (insort_key f x ys)"
  by (induction ys) (simp_all add: assms)

lemma sort_key_map_agree:
  assumes "\<And>x. f (g x) = f x"
  shows "sort_key f (map g xs) = map g (sort_key f xs)"
proof (induction xs)
  case Nil
  then show ?case by simp
next
  case (Cons x xs)
  then show ?case by (simp add: sort_key_simps insort_key_map_agree [of f g, OF assms])
qed

lemma sort_items_unposition:
  "sort_items (map (\<lambda>i. if P i then i\<lparr>position := None\<rparr> else i) its) =
   map (\<lambda>i. if P i then i\<lparr>position := None\<rparr> else i) (sort_items its)"
  unfolding sort_items_def by (rule sort_key_map_agree) simp

lemma sort_items_filter: "sort_items (filter P its) = filter P (sort_items its)"
  by (simp add: sort_items_def filter_sort)

lemma pack_item_unfit:
  assumes "preassigned_target cs i = None"
  shows "pack_item ez (cs, r) (i\<lparr>position := None\<rparr>) = pack_item ez (cs, r) i"
proof -
  from assms have "pack_item ez (cs, r) i = search_placement ez (cs, r) i"
    by (auto simp: pack_item_def preassigned_target_def split: option.splits)
  moreover have "pack_item ez (cs, r) (i\<lparr>position := None\<rparr>) =
      search_placement ez (cs, r) (i\<lparr>position := None\<rparr>)"
    by (rule pack_item_unpositioned) simp
  ultimately show ?thesis by (simp add: search_placement_position_irrelevant)
qed

lemma pack_loop_unfit:
  assumes "\<forall>i\<in>set xs. item_ok i" "map frame cs1 = map frame cs"
  shows "pack_loop ez (cs1, r1)
           (map (\<lambda>i. if preassigned_target cs i = None then i\<lparr>position := None\<rparr> else i) xs) =
         pack_loop ez (cs1, r1) xs"
  using assms
proof (induction xs arbitrary: cs1 r1)
  case Nil
  then show ?case by simp
next
  case (Cons i xs)
  then have oki: "item_ok i" and okx: "\<forall>i\<in>set xs. item_ok i" by simp_all
  have t: "preassigned_target cs1 i = preassigned_target cs i"
    by (rule preassigned_target_frame [OF Cons.prems(2)])
  have e: "pack_item ez (cs1, r1)
        (if preassigned_target cs i = None then i\<lparr>position := None\<rparr> else i) =
      pack_item ez (cs1, r1) i"
  proof (cases "preassigned_target cs i")
    case None
    with t have "preassigned_target cs1 i = None" by simp
    from pack_item_unfit [OF this] None show ?thesis by simp
  next
    case (Some k)
    then show ?thesis by simp
  qed
  from pack_item_total [OF oki, of ez "(cs1, r1)"] obtain cs2 r2
    where p: "pack_item ez (cs1, r1) i = Inr (cs2, r2)" by (metis surj_pair)
  have "map frame cs2 = map frame cs1" by (rule pack_item_frame [OF oki p])
  with Cons.prems(2) have f: "map frame cs2 = map frame cs" by simp
  from Cons.IH [OF okx f] show ?case by (simp add: e p)
qed

lemma pack_items_unfit:
  assumes "\<forall>i\<in>set its. item_ok i"
  shows "pack_items (mk_ThreeDimensionalPacking cs
           (map (\<lambda>i. if preassigned_target cs i = None then i\<lparr>position := None\<rparr> else i) its)
           dbg ez) =
         pack_items (mk_ThreeDimensionalPacking cs its dbg ez)"
proof -
  have ok': "\<forall>i\<in>set (sort_items its). item_ok i" using assms by simp
  show ?thesis
    by (simp add: pack_items_def mk_ThreeDimensionalPacking_def sort_items_unposition
        pack_loop_unfit [OF ok' refl])
qed

lemma attached_entries_mset:
  assumes "mset xs = mset ys"
  shows "mset (attached_entries cs xs) = mset (attached_entries cs ys)"
proof -
  have "mset (concat (map f xs)) = (\<Sum>x\<in>#mset xs. mset (f x))" for f :: "Item \<Rightarrow> placement list"
    and xs
    by (induction xs) simp_all
  then show ?thesis by (simp add: attached_entries_def assms)
qed

lemma preassigned_target_Some_iff:
  "(preassigned_target cs i = Some k) =
   (\<exists>p. position i = Some p \<and> k < length cs \<and> position_fits (cs ! k) i p \<and>
        (\<forall>j<k. \<not> position_fits (cs ! j) i p))"
  by (cases "position i") (simp_all add: preassigned_target_def find_container_Some_iff)

lemma preassigned_target_None_iff:
  "(preassigned_target cs i = None) =
   (position i = None \<or>
    (\<exists>p. position i = Some p \<and> (\<forall>j<length cs. \<not> position_fits (cs ! j) i p)))"
  by (cases "position i") (simp_all add: preassigned_target_def find_container_None)

lemma attached_entry_member:
  assumes "i \<in> set its" "position i = Some p" "find_container cs i p = Some k"
  shows "mk_placement i (cs ! k) p \<in> set (attached_entries cs its)"
proof -
  have "mk_placement i (cs ! k) p \<in> set (case position i of
                None \<Rightarrow> []
              | Some p \<Rightarrow> (case find_container cs i p of
                    None \<Rightarrow> []
                  | Some k \<Rightarrow> [mk_placement i (cs ! k) p]))"
    by (simp add: assms(2,3))
  with assms(1) show ?thesis
    unfolding attached_entries_def set_concat set_map by blast
qed

lemma unit_search_run:
  "\<exists>r. pack_items (mk_ThreeDimensionalPacking [unit_container] [unit_item] dbg ez) =
     Inr ([placed_container unit_container unit_item (0, 0, 0)], r) \<and>
     map p_position (successful_placements r) = [(0, 0, 0)]"
proof -
  let ?r = "\<lparr>successful_placements = [], unplaced_items = [], container_stats = []\<rparr>"
  have z: "zone_matches unit_container unit_item"
    by (simp add: zone_matches_def example_defs)
  have n: "position unit_item = None" by (simp add: example_defs)
  have s: "pack_item ez ([unit_container], ?r) unit_item =
      Inr ([placed_container unit_container unit_item (0, 0, 0)],
           add_success ?r (mk_placement unit_item unit_container (grid_to_real (0, 0, 0))))"
    by (rule pack_item_single_search [OF unit_item_ok n z _ _ _ unit_find_origin])
       (simp_all add: example_defs)
  have so: "sort_items [unit_item] = [unit_item]" by (simp add: sort_items_def)
  have l: "pack_loop ez ([unit_container], ?r) (sort_items [unit_item]) =
      Inr ([placed_container unit_container unit_item (0, 0, 0)],
           add_success ?r (mk_placement unit_item unit_container (grid_to_real (0, 0, 0))))"
    by (simp add: so s)
  have "c_volume (placed_container unit_container unit_item (0, 0, 0)) \<noteq> 0"
    by (simp add: placed_container_def example_defs)
  then have st: "container_statistics [placed_container unit_container unit_item (0, 0, 0)] =
      Inr (map (\<lambda>c. \<lparr>s_container_id = container_id c, s_zone = zone c,
                s_items_placed = length (items c),
                s_volume_utilization = (1 - available_volume c / c_volume c) * 100,
                s_available_volume = available_volume c,
                s_total_volume = c_volume c\<rparr>)
             [placed_container unit_container unit_item (0, 0, 0)])"
    by (intro container_statistics_eq) simp
  show ?thesis
    by (simp add: pack_items_eval [OF l st] add_success_def mk_placement_def grid_to_real_def)
qed

lemma zoneB_empty_run:
  "\<exists>r. pack_items (mk_ThreeDimensionalPacking [zoneB_container] [] dbg ez) =
     Inr ([zoneB_container], r) \<and> unplaced_items r = []"
  by (simp add: pack_items_def mk_ThreeDimensionalPacking_def sort_items_def
      container_stat_of_def zoneB_container_def mk_Container_def)


section \<open>Placement is atomic\<close>

text \<open>
  Claim C5. For an item as the constructor builds it (dimensions at least 1), a container
  in any state and any corner: when \<open>is_position_valid\<close> is false, \<open>place_item\<close> returns
  false and changes neither the container (grid, placed-items list, available volume) nor
  the item, so a position that was unset stays unset; when it is true, the cells of the
  item's extent were all free, \<open>place_item\<close> marks exactly that extent, sets the item's
  position to the corner divided by the resolution, appends the item to the placed-items
  list, takes the item's volume off the available volume and returns true.
\<close>

theorem place_item_atomic:
  assumes "item_ok i"
  shows "(\<not> is_position_valid c i (x, y, z) \<longrightarrow> place_item c i (x, y, z) = (False, c, i)) \<and>
    (is_position_valid c i (x, y, z) \<longrightarrow>
       space c \<inter> cells (x, y, z) (item_width i) (item_depth i) (item_height i) = {} \<and>
       place_item c i (x, y, z) =
         (True,
          c\<lparr>space := space c \<union> cells (x, y, z) (item_width i) (item_depth i) (item_height i),
            items := items c @ [i\<lparr>position := Some (of_int x / of_int resolution,
                 of_int y / of_int resolution, of_int z / of_int resolution)\<rparr>],
            available_volume := available_volume c - volume i\<rparr>,
          i\<lparr>position := Some (of_int x / of_int resolution,
                 of_int y / of_int resolution, of_int z / of_int resolution)\<rparr>))"
proof (intro conjI impI)
  assume "\<not> is_position_valid c i (x, y, z)"
  then show "place_item c i (x, y, z) = (False, c, i)" by (simp add: place_item_def)
next
  assume v: "is_position_valid c i (x, y, z)"
  show "space c \<inter> cells (x, y, z) (item_width i) (item_depth i) (item_height i) = {}"
    by (rule valid_cells_free [OF assms v])
next
  assume v: "is_position_valid c i (x, y, z)"
  then show "place_item c i (x, y, z) =
         (True,
          c\<lparr>space := space c \<union> cells (x, y, z) (item_width i) (item_depth i) (item_height i),
            items := items c @ [i\<lparr>position := Some (of_int x / of_int resolution,
                 of_int y / of_int resolution, of_int z / of_int resolution)\<rparr>],
            available_volume := available_volume c - volume i\<rparr>,
          i\<lparr>position := Some (of_int x / of_int resolution,
                 of_int y / of_int resolution, of_int z / of_int resolution)\<rparr>)"
    by (simp add: place_item_def Let_def valid_slice3_cells [OF assms v])
qed

theorem place_item_atomic_witness:
  "item_ok unit_item \<and>
   \<not> is_position_valid unit_container unit_item (1, 0, 0) \<and>
   place_item unit_container unit_item (1, 0, 0) = (False, unit_container, unit_item) \<and>
   is_position_valid unit_container unit_item (0, 0, 0) \<and>
   place_item unit_container unit_item (0, 0, 0) =
     (True,
      unit_container\<lparr>space := cells (0, 0, 0) 10 10 10,
        items := [unit_item\<lparr>position := Some (0, 0, 0)\<rparr>],
        available_volume := 0\<rparr>,
      unit_item\<lparr>position := Some (0, 0, 0)\<rparr>)"
proof -
  have a: "place_item unit_container unit_item (1, 0, 0) = (False, unit_container, unit_item)"
    using place_item_atomic [OF unit_item_ok, of unit_container 1 0 0] unit_invalid_shifted
    by simp
  have b: "place_item unit_container unit_item (0, 0, 0) =
     (True,
      unit_container\<lparr>space := cells (0, 0, 0) 10 10 10,
        items := [unit_item\<lparr>position := Some (0, 0, 0)\<rparr>],
        available_volume := 0\<rparr>,
      unit_item\<lparr>position := Some (0, 0, 0)\<rparr>)"
    using place_item_atomic [OF unit_item_ok, of unit_container 0 0 0] unit_valid_origin
    by (simp add: unit_item_cells) (simp add: unit_container_def unit_item_def mk_Container_def
        mk_Item_def)
  show ?thesis using a b unit_item_ok unit_invalid_shifted unit_valid_origin by simp
qed


section \<open>The floor pass and the stacking pass\<close>

text \<open>
  Claim C6. For every container state and every item as the constructor builds it: a
  result on the floor is a valid corner with non-negative coordinates that comes, in the
  order of the floor pass (x ascending in the outer loop; y inner, ascending when the
  priority is above 5 and descending otherwise), before every other valid corner at
  \<open>z = 0\<close>; whenever some corner at \<open>z = 0\<close> is valid the result is on the floor; and a
  result with \<open>z \<ge> 1\<close> is returned only when no corner at \<open>z = 0\<close> is valid.
\<close>

theorem floor_pass_first_valid:
  assumes "item_ok i"
  shows "(\<forall>x y. find_bottom_left_back_position c i = Inr (Some (x, y, 0)) \<longrightarrow>
            is_position_valid c i (x, y, 0) \<and> 0 \<le> x \<and> 0 \<le> y \<and>
            (\<forall>x' y'. is_position_valid c i (x', y', 0) \<longrightarrow>
               (x', y') = (x, y) \<or> floor_before i (x, y) (x', y'))) \<and>
         ((\<exists>x' y'. is_position_valid c i (x', y', 0)) \<longrightarrow>
            (\<exists>x y. find_bottom_left_back_position c i = Inr (Some (x, y, 0)))) \<and>
         (\<forall>x y z. find_bottom_left_back_position c i = Inr (Some (x, y, z)) \<and> 1 \<le> z \<longrightarrow>
            (\<forall>x' y'. \<not> is_position_valid c i (x', y', 0)))"
proof (intro conjI allI impI)
  fix x y
  assume r: "find_bottom_left_back_position c i = Inr (Some (x, y, 0))"
  note f = floor_result_first [OF assms r]
  show "is_position_valid c i (x, y, 0)" "0 \<le> x" "0 \<le> y" by (rule f)+
  fix x' y'
  assume "is_position_valid c i (x', y', 0)"
  then show "(x', y') = (x, y) \<or> floor_before i (x, y) (x', y')" by (rule f(4))
next
  assume "\<exists>x' y'. is_position_valid c i (x', y', 0)"
  then show "\<exists>x y. find_bottom_left_back_position c i = Inr (Some (x, y, 0))"
    using floor_result_exists [OF assms] by blast
next
  fix x y z x' y'
  assume "find_bottom_left_back_position c i = Inr (Some (x, y, z)) \<and> 1 \<le> z"
  then show "\<not> is_position_valid c i (x', y', 0)"
    using stacked_result_no_floor [OF assms] by blast
qed

theorem floor_pass_first_valid_witness:
  "item_ok unit_item \<and>
   find_bottom_left_back_position deep_container unit_item = Inr (Some (0, 10, 0)) \<and>
   is_position_valid deep_container unit_item (0, 10, 0) \<and>
   is_position_valid deep_container unit_item (0, 3, 0) \<and>
   floor_before unit_item (0, 10) (0, 3) \<and>
   item_ok urgent_item \<and>
   find_bottom_left_back_position deep_container urgent_item = Inr (Some (0, 0, 0)) \<and>
   is_position_valid deep_container urgent_item (0, 3, 0) \<and>
   floor_before urgent_item (0, 0) (0, 3) \<and>
   find_bottom_left_back_position tall_loaded unit_item = Inr (Some (0, 0, 10)) \<and>
   \<not> is_position_valid tall_loaded unit_item (0, 0, 0)"
proof -
  have a: "is_position_valid deep_container unit_item (0, 3, 0)"
    by (simp add: deep_valid_unit)
  have b: "is_position_valid deep_container urgent_item (0, 3, 0)"
    by (simp add: deep_valid_urgent)
  from floor_pass_first_valid [OF unit_item_ok, of deep_container] find_deep_unit a
  have 1: "is_position_valid deep_container unit_item (0, 10, 0) \<and>
           floor_before unit_item (0, 10) (0, 3)" by fastforce
  from floor_pass_first_valid [OF urgent_item_ok, of deep_container] find_deep_urgent b
  have 2: "floor_before urgent_item (0, 0) (0, 3)" by fastforce
  from floor_pass_first_valid [OF unit_item_ok, of tall_loaded] find_tall_loaded
  have 3: "\<not> is_position_valid tall_loaded unit_item (0, 0, 0)" by fastforce
  show ?thesis
    using 1 2 3 a b unit_item_ok urgent_item_ok find_deep_unit find_deep_urgent find_tall_loaded
    by simp
qed

text \<open>
  Claim C7. For every container state and every item as the constructor builds it: a
  position the search returns at a height \<open>z > 0\<close> (a position of the stacking pass)
  satisfies \<open>is_position_valid\<close> and the support condition, that is, the occupied cells
  in the layer \<open>z - 1\<close> below the footprint number at least half of the footprint's
  \<open>item_width * item_depth\<close> cells; the search never raises; and it returns
  \<^verbatim>\<open>None\<close> exactly when neither pass has a position, that is, when every valid corner
  lies above the floor and lacks support.
\<close>

theorem stacking_pass_supported:
  assumes "item_ok i"
  shows "(\<forall>x y z. find_bottom_left_back_position c i = Inr (Some (x, y, z)) \<and> 0 < z \<longrightarrow>
            is_position_valid c i (x, y, z) \<and> supported c i (x, y, z)) \<and>
         (\<exists>r. find_bottom_left_back_position c i = Inr r) \<and>
         ((find_bottom_left_back_position c i = Inr None) =
          (\<forall>x y z. is_position_valid c i (x, y, z) \<longrightarrow> 0 < z \<and> \<not> supported c i (x, y, z)))"
proof (intro conjI allI impI)
  fix x y z
  assume "find_bottom_left_back_position c i = Inr (Some (x, y, z)) \<and> 0 < z"
  then have "is_position_valid c i (x, y, z) \<and> supported c i (x, y, z)"
    using find_stacked_supported [OF assms] by blast
  then show "is_position_valid c i (x, y, z)" "supported c i (x, y, z)" by simp_all
next
  show "\<exists>r. find_bottom_left_back_position c i = Inr r" by (rule find_total [OF assms])
next
  show "(find_bottom_left_back_position c i = Inr None) =
        (\<forall>x y z. is_position_valid c i (x, y, z) \<longrightarrow> 0 < z \<and> \<not> supported c i (x, y, z))"
    by (rule find_None_iff_unsupported [OF assms])
qed

theorem stacking_pass_supported_witness:
  "item_ok unit_item \<and>
   find_bottom_left_back_position tall_loaded unit_item = Inr (Some (0, 0, 10)) \<and>
   is_position_valid tall_loaded unit_item (0, 0, 10) \<and>
   supported tall_loaded unit_item (0, 0, 10) \<and>
   item_width unit_item * item_depth unit_item = 100 \<and>
   occupied_below tall_loaded unit_item (0, 0, 10) \<ge> 50 \<and>
   find_bottom_left_back_position unit_loaded unit_item = Inr None \<and>
   \<not> is_position_valid unit_loaded unit_item (0, 0, 0)"
proof -
  from stacking_pass_supported [OF unit_item_ok, of tall_loaded] find_tall_loaded
  have 1: "is_position_valid tall_loaded unit_item (0, 0, 10) \<and>
           supported tall_loaded unit_item (0, 0, 10)" by fastforce
  then have 2: "occupied_below tall_loaded unit_item (0, 0, 10) \<ge> 50"
    by (simp add: supported_def unit_item_cells)
  from stacking_pass_supported [OF unit_item_ok, of unit_loaded] unit_loaded_invalid
  have 3: "find_bottom_left_back_position unit_loaded unit_item = Inr None" by simp
  show ?thesis
    using 1 2 3 unit_item_ok find_tall_loaded unit_loaded_invalid
    by (simp add: unit_item_cells)
qed


section \<open>The first scenario of the specification\<close>

text \<open>
  Claim C2, as stated, fails: in the scenario (one container of 100 by 100 by 100 in zone
  A, one item of 50 by 50 by 50 with priority 5 and preferred zone A) no success entry has
  the position \<open>(0, 0, 0)\<close>, with and without zone enforcement.
\<close>

theorem scenario_origin_counterexample:
  "\<not> (\<exists>cs r e. pack_items (scenario_packing False) = Inr (cs, r) \<and>
         e \<in> set (successful_placements r) \<and> p_position e = (0, 0, 0)) \<and>
   \<not> (\<exists>cs r e. pack_items (scenario_packing True) = Inr (cs, r) \<and>
         e \<in> set (successful_placements r) \<and> p_position e = (0, 0, 0))"
  by (simp add: scenario_run)

text \<open>
  Claim C2, amended. The priority 5 is not above 5, so the floor pass visits the back of
  the container first: the run records one successful placement, of that item in that
  container, at the real-unit position \<open>(0, 50, 0)\<close>, and leaves no item unplaced.
\<close>

theorem scenario_placed_at_back:
  "\<exists>cs r. pack_items (scenario_packing ez) = Inr (cs, r) \<and>
     successful_placements r =
       [\<lparr>p_item_id = item_id scenario_item, p_container_id = container_id scenario_container,
         p_position = (0, 50, 0), p_dimensions = (50, 50, 50)\<rparr>] \<and>
     unplaced_items r = []"
  by (simp add: scenario_run) (simp add: scenario_defs)


section \<open>Container statistics\<close>

text \<open>
  Claim C9. For constructor-built containers and items, the run returns, and its result
  holds one statistics entry per container, in the order of the containers: the entry of
  container \<open>k\<close> carries its id and zone, the length of its placed-items list, its
  available volume, its total volume (which is not zero), and as volume utilization
  \<open>(1 - available_volume / volume) * 100\<close>, all computed from the container as the
  placement attempts leave it. In the scenario of one container of volume 1,000,000 that
  ends up holding the one search-placed item of volume 125,000 the reported utilization
  is 12.5.
\<close>

theorem container_stats_reported:
  assumes "\<forall>i\<in>set its. item_ok i" and "\<forall>c\<in>set cs. fresh_container c"
  shows "\<exists>cs' r. pack_items (mk_ThreeDimensionalPacking cs its dbg ez) = Inr (cs', r) \<and>
     length cs' = length cs \<and> length (container_stats r) = length cs \<and>
     (\<forall>k<length cs.
        s_container_id (container_stats r ! k) = container_id (cs ! k) \<and>
        s_zone (container_stats r ! k) = zone (cs ! k) \<and>
        s_items_placed (container_stats r ! k) = length (items (cs' ! k)) \<and>
        s_volume_utilization (container_stats r ! k) =
          (1 - available_volume (cs' ! k) / c_volume (cs ! k)) * 100 \<and>
        s_available_volume (container_stats r ! k) = available_volume (cs' ! k) \<and>
        s_total_volume (container_stats r ! k) = c_volume (cs ! k) \<and>
        c_volume (cs ! k) \<noteq> 0) \<and>
     (\<exists>cs1 r1. pack_items (scenario_packing ez) = Inr (cs1, r1) \<and>
        map c_volume cs1 = [1000000] \<and> map (\<lambda>c. map volume (items c)) cs1 = [[125000]] \<and>
        map s_volume_utilization (container_stats r1) = [25 / 2])"
proof -
  have v: "\<forall>c\<in>set cs. c_volume c \<noteq> 0" using assms(2) fresh_volume by blast
  from pack_items_result [OF assms(1) v, of ez dbg] obtain cs' r'
    where f: "map frame cs' = map frame cs"
      and p: "pack_items (mk_ThreeDimensionalPacking cs its dbg ez) =
             Inr (cs', r'\<lparr>container_stats :=
                map (\<lambda>c. \<lparr>s_container_id = container_id c, s_zone = zone c,
                  s_items_placed = length (items c),
                  s_volume_utilization = (1 - available_volume c / c_volume c) * 100,
                  s_available_volume = available_volume c,
                  s_total_volume = c_volume c\<rparr>) cs'\<rparr>)"
    by blast
  have l: "length cs' = length cs" by (rule frame_length [OF f])
  have k: "\<forall>k<length cs. container_id (cs' ! k) = container_id (cs ! k) \<and>
      c_volume (cs' ! k) = c_volume (cs ! k) \<and> zone (cs' ! k) = zone (cs ! k) \<and>
      c_volume (cs ! k) \<noteq> 0"
    using frame_fields [OF frame_nth [OF f]] v by simp
  have ex: "\<exists>cs1 r1. pack_items (scenario_packing ez) = Inr (cs1, r1) \<and>
        map c_volume cs1 = [1000000] \<and> map (\<lambda>c. map volume (items c)) cs1 = [[125000]] \<and>
        map s_volume_utilization (container_stats r1) = [25 / 2]"
    by (simp add: scenario_run scenario_loaded_def) (simp add: scenario_defs)
  define r where "r = r'\<lparr>container_stats :=
                map (\<lambda>c. \<lparr>s_container_id = container_id c, s_zone = zone c,
                  s_items_placed = length (items c),
                  s_volume_utilization = (1 - available_volume c / c_volume c) * 100,
                  s_available_volume = available_volume c,
                  s_total_volume = c_volume c\<rparr>) cs'\<rparr>"
  have p': "pack_items (mk_ThreeDimensionalPacking cs its dbg ez) = Inr (cs', r)"
    using p by (simp add: r_def)
  have ls: "length (container_stats r) = length cs" by (simp add: r_def l)
  have each: "\<forall>k<length cs.
        s_container_id (container_stats r ! k) = container_id (cs ! k) \<and>
        s_zone (container_stats r ! k) = zone (cs ! k) \<and>
        s_items_placed (container_stats r ! k) = length (items (cs' ! k)) \<and>
        s_volume_utilization (container_stats r ! k) =
          (1 - available_volume (cs' ! k) / c_volume (cs ! k)) * 100 \<and>
        s_available_volume (container_stats r ! k) = available_volume (cs' ! k) \<and>
        s_total_volume (container_stats r ! k) = c_volume (cs ! k) \<and>
        c_volume (cs ! k) \<noteq> 0"
  proof (intro allI impI)
    fix j assume j: "j < length cs"
    with l have j': "j < length cs'" by simp
    from k j have e: "container_id (cs' ! j) = container_id (cs ! j)"
      "c_volume (cs' ! j) = c_volume (cs ! j)" "zone (cs' ! j) = zone (cs ! j)"
      "c_volume (cs ! j) \<noteq> 0" by simp_all
    show "s_container_id (container_stats r ! j) = container_id (cs ! j) \<and>
        s_zone (container_stats r ! j) = zone (cs ! j) \<and>
        s_items_placed (container_stats r ! j) = length (items (cs' ! j)) \<and>
        s_volume_utilization (container_stats r ! j) =
          (1 - available_volume (cs' ! j) / c_volume (cs ! j)) * 100 \<and>
        s_available_volume (container_stats r ! j) = available_volume (cs' ! j) \<and>
        s_total_volume (container_stats r ! j) = c_volume (cs ! j) \<and>
        c_volume (cs ! j) \<noteq> 0"
      using j' e by (simp add: r_def)
  qed
  show ?thesis
    by (rule exI [of _ cs'], rule exI [of _ r], intro conjI) (rule p' l ls each ex)+
qed

theorem container_stats_reported_witness:
  "item_ok scenario_item \<and> fresh_container scenario_container \<and>
   (\<exists>cs' r. pack_items (scenario_packing False) = Inr (cs', r) \<and>
      s_volume_utilization (container_stats r ! 0) =
        (1 - available_volume (cs' ! 0) / c_volume scenario_container) * 100 \<and>
      s_volume_utilization (container_stats r ! 0) = 25 / 2 \<and>
      s_total_volume (container_stats r ! 0) = 1000000)"
proof -
  have a: "\<forall>i\<in>set [scenario_item]. item_ok i" by (simp add: scenario_item_ok)
  have b: "\<forall>c\<in>set [scenario_container]. fresh_container c" by (simp add: scenario_fresh)
  show ?thesis
    using container_stats_reported [OF a b, of False False] scenario_item_ok scenario_fresh
    by (simp add: scenario_packing_def scenario_run [unfolded scenario_packing_def]
        scenario_loaded_def)
qed


section \<open>Zone enforcement\<close>

text \<open>
  Claim C4, as stated, fails: with zone enforcement on, the unit item of preferred zone A
  that is supplied with the position \<open>(0, 0, 0)\<close> is recorded as a success in the only
  container, whose zone is B. Both inputs are as the constructors build them.
\<close>

theorem zone_enforcement_counterexample:
  "item_ok preset_item \<and> fresh_container zoneB_container \<and>
   (\<exists>cs' r. pack_items (mk_ThreeDimensionalPacking [zoneB_container] [preset_item] False True)
        = Inr (cs', r) \<and>
      \<not> zones_respected [zoneB_container] [preset_item] r)"
  by (simp add: zoneB_run zones_respected_def zoneB_mismatch preset_item_ok zoneB_fresh)

text \<open>
  Claim C4, amended. With zone enforcement on, and for constructor-built containers and
  items, the run returns and every success entry names an input item and a container such
  that either the container's zone equals the item's preferred zone, or the item was
  supplied with a pre-assigned position, that container is the one the pre-assigned path
  attaches it to, and the entry carries the item's own position.
\<close>

theorem zone_enforcement_search:
  assumes "\<forall>i\<in>set its. item_ok i" and "\<forall>c\<in>set cs. fresh_container c"
  shows "\<exists>cs' r. pack_items (mk_ThreeDimensionalPacking cs its dbg True) = Inr (cs', r) \<and>
           zones_respected_by_search cs its r"
proof -
  have v: "\<forall>c\<in>set cs. c_volume c \<noteq> 0" using assms(2) fresh_volume by blast
  from pack_items_result [OF assms(1) v, of True dbg] obtain cs' r' ss
    where l: "pack_loop True (cs,
              \<lparr>successful_placements = [], unplaced_items = [], container_stats = []\<rparr>)
              (sort_items its) = Inr (cs', r')"
      and p: "pack_items (mk_ThreeDimensionalPacking cs its dbg True) =
             Inr (cs', r'\<lparr>container_stats := ss\<rparr>)"
    by blast
  have z0: "zones_respected_by_search cs its
      \<lparr>successful_placements = [], unplaced_items = [], container_stats = []\<rparr>"
    by (simp add: zones_respected_by_search_def)
  have "zones_respected_by_search cs its r'"
    by (rule pack_loop_zones [OF assms(1) l _ z0]) simp
  then have "zones_respected_by_search cs its (r'\<lparr>container_stats := ss\<rparr>)" by simp
  with p show ?thesis by blast
qed

theorem zone_enforcement_search_witness:
  "item_ok scenario_item \<and> fresh_container scenario_container \<and>
   (\<exists>cs' r. pack_items (scenario_packing True) = Inr (cs', r) \<and>
      zones_respected_by_search [scenario_container] [scenario_item] r \<and>
      length (successful_placements r) = 1)"
proof -
  have a: "\<forall>i\<in>set [scenario_item]. item_ok i" by (simp add: scenario_item_ok)
  have b: "\<forall>c\<in>set [scenario_container]. fresh_container c" by (simp add: scenario_fresh)
  show ?thesis
    using zone_enforcement_search [OF a b, of False] scenario_item_ok scenario_fresh
    by (simp add: scenario_packing_def scenario_run [unfolded scenario_packing_def])
qed


section \<open>Volume conservation\<close>

text \<open>
  Claim C3, as stated, fails: the unit item supplied with the position \<open>(0, 0, 0)\<close> is
  attached to the unit container without any change of the available volume, so the
  available volume plus the volumes of the listed items is 2, not the total volume 1.
\<close>

theorem volume_conservation_counterexample:
  "item_ok preset_item \<and> fresh_container unit_container \<and>
   (\<exists>cs' r. pack_items (mk_ThreeDimensionalPacking [unit_container] [preset_item] False False)
        = Inr (cs', r) \<and>
      (\<exists>c\<in>set cs'. \<not> volume_conserved c))"
proof -
  from unit_preset_run [of False] obtain r
    where "pack_items (mk_ThreeDimensionalPacking [unit_container] [preset_item] False False) =
           Inr ([attach_item unit_container preset_item], r)" ..
  then show ?thesis
    using unit_preset_unbalanced preset_item_ok(1) unit_fresh by simp
qed

text \<open>
  Claim C3, amended. For constructor-built containers and items the run returns, and for
  every container the available volume plus the volumes of the items in its list equals
  its total volume plus the volumes of the input items that the pre-assigned path attached
  to it (these are listed without any volume adjustment). In particular, when no item is
  supplied with a pre-assigned position, every container conserves volume exactly.
\<close>

theorem volume_accounting:
  assumes "\<forall>i\<in>set its. item_ok i" and "\<forall>c\<in>set cs. fresh_container c"
  shows "\<exists>cs' r. pack_items (mk_ThreeDimensionalPacking cs its dbg ez) = Inr (cs', r) \<and>
     length cs' = length cs \<and>
     (\<forall>k<length cs. c_volume (cs' ! k) = c_volume (cs ! k) \<and>
        balance (cs' ! k) = c_volume (cs ! k) + attached_volume cs its k) \<and>
     ((\<forall>i\<in>set its. position i = None) \<longrightarrow> (\<forall>c\<in>set cs'. volume_conserved c))"
proof -
  have v: "\<forall>c\<in>set cs. c_volume c \<noteq> 0" using assms(2) fresh_volume by blast
  have ok': "\<forall>i\<in>set (sort_items its). item_ok i" using assms(1) by simp
  from pack_items_result [OF assms(1) v, of ez dbg] obtain cs' r' ss
    where l: "pack_loop ez (cs,
              \<lparr>successful_placements = [], unplaced_items = [], container_stats = []\<rparr>)
              (sort_items its) = Inr (cs', r')"
      and f: "map frame cs' = map frame cs"
      and p: "pack_items (mk_ThreeDimensionalPacking cs its dbg ez) =
             Inr (cs', r'\<lparr>container_stats := ss\<rparr>)"
    by blast
  have len: "length cs' = length cs" by (rule frame_length [OF f])
  have each: "\<forall>k<length cs. c_volume (cs' ! k) = c_volume (cs ! k) \<and>
        balance (cs' ! k) = c_volume (cs ! k) + attached_volume cs its k"
  proof (intro allI impI)
    fix k assume k: "k < length cs"
    then have "cs ! k \<in> set cs" by simp
    with assms(2) have fr: "fresh_container (cs ! k)" by blast
    have "balance (cs' ! k) = balance (cs ! k) + attached_volume cs (sort_items its) k"
      by (rule pack_loop_balance [OF ok' l k])
    then have b: "balance (cs' ! k) = c_volume (cs ! k) + attached_volume cs its k"
      by (simp add: fresh_balance [OF fr] attached_volume_sort)
    have "c_volume (cs' ! k) = c_volume (cs ! k)"
      by (rule frame_fields(2) [OF frame_nth [OF f k]])
    with b show "c_volume (cs' ! k) = c_volume (cs ! k) \<and>
        balance (cs' ! k) = c_volume (cs ! k) + attached_volume cs its k" by simp
  qed
  have cons: "(\<forall>i\<in>set its. position i = None) \<longrightarrow> (\<forall>c\<in>set cs'. volume_conserved c)"
  proof (intro impI ballI)
    fix c assume n: "\<forall>i\<in>set its. position i = None" and c: "c \<in> set cs'"
    from c obtain k where k: "k < length cs'" "c = cs' ! k" by (auto simp: in_set_conv_nth)
    with len have kl: "k < length cs" by simp
    from each kl have "c_volume (cs' ! k) = c_volume (cs ! k)"
      "balance (cs' ! k) = c_volume (cs ! k) + attached_volume cs its k" by simp_all
    with k show "volume_conserved c"
      by (simp add: volume_conserved_balance attached_volume_none [OF n])
  qed
  show ?thesis
    by (rule exI [of _ cs'], rule exI [of _ "r'\<lparr>container_stats := ss\<rparr>"], intro conjI)
       (rule p len each cons)+
qed

theorem volume_accounting_witness:
  "item_ok preset_item \<and> fresh_container unit_container \<and>
   (\<exists>cs' r. pack_items (mk_ThreeDimensionalPacking [unit_container] [preset_item] False False)
        = Inr (cs', r) \<and>
      balance (cs' ! 0) = c_volume unit_container + volume preset_item \<and>
      attached_volume [unit_container] [preset_item] 0 = volume preset_item) \<and>
   item_ok scenario_item \<and> fresh_container scenario_container \<and>
   position scenario_item = None \<and>
   (\<exists>cs' r. pack_items (scenario_packing False) = Inr (cs', r) \<and> volume_conserved (cs' ! 0))"
proof -
  have a: "\<forall>i\<in>set [preset_item]. item_ok i" by (simp add: preset_item_ok)
  have b: "\<forall>c\<in>set [unit_container]. fresh_container c" by (simp add: unit_fresh)
  from unit_preset_run [of False] obtain r0
    where run: "pack_items (mk_ThreeDimensionalPacking [unit_container] [preset_item] False False)
           = Inr ([attach_item unit_container preset_item], r0)" ..
  have t: "preassigned_target [unit_container] preset_item = Some 0"
    by (simp add: preassigned_target_def find_container_single position_fits_def preset_defs)
  have av: "attached_volume [unit_container] [preset_item] 0 = volume preset_item"
    by (simp add: attached_volume_def t)
  from volume_accounting [OF a b, of False False]
  have 1: "balance ([attach_item unit_container preset_item] ! 0) =
           c_volume unit_container + volume preset_item"
    by (simp add: run av)
  have c: "\<forall>i\<in>set [scenario_item]. item_ok i" by (simp add: scenario_item_ok)
  have d: "\<forall>c\<in>set [scenario_container]. fresh_container c" by (simp add: scenario_fresh)
  have n: "position scenario_item = None" by (simp add: scenario_defs)
  from volume_accounting [OF c d, of False False] n
  have 2: "volume_conserved scenario_loaded"
    by (simp add: scenario_run [unfolded scenario_packing_def])
  show ?thesis
    using 1 2 run av n preset_item_ok(1) unit_fresh scenario_item_ok scenario_fresh
    by (simp add: scenario_run)
qed

section \<open>No overlap\<close>

text \<open>
  Claim C1, as stated, fails: two items supplied with the same position \<open>(0, 0, 0)\<close> are
  both attached to the unit container by the pre-assigned path, which neither tests nor
  marks the grid, and their cell ranges coincide.
\<close>

theorem no_overlap_counterexample:
  "item_ok preset_item \<and> item_ok preset_item2 \<and> fresh_container unit_container \<and>
   (\<exists>cs' r. pack_items
        (mk_ThreeDimensionalPacking [unit_container] [preset_item, preset_item2] False False)
        = Inr (cs', r) \<and>
      (\<exists>c\<in>set cs'. \<not> no_overlap c))"
proof -
  from unit_two_preset_run [of False] obtain r
    where "pack_items
        (mk_ThreeDimensionalPacking [unit_container] [preset_item, preset_item2] False False) =
           Inr ([attach_item (attach_item unit_container preset_item) preset_item2], r)" ..
  then show ?thesis
    using unit_two_preset_overlap preset_item_ok(1,2) unit_fresh by simp
qed

text \<open>
  Claim C1, amended. For constructor-built containers and items the run returns, and in
  every container the entries of the placed-items list other than the input items attached
  by the pre-assigned path (the entries placed by the search) have pairwise disjoint cell
  ranges. In particular, when no item is supplied with a pre-assigned position, no two
  entries of any container's list intersect.
\<close>

theorem search_placed_no_overlap:
  assumes "\<forall>i\<in>set its. item_ok i" and "\<forall>c\<in>set cs. fresh_container c"
  shows "\<exists>cs' r. pack_items (mk_ThreeDimensionalPacking cs its dbg ez) = Inr (cs', r) \<and>
     (\<forall>c\<in>set cs'. pairwise_disjoint (map item_cells (search_placed cs its c))) \<and>
     ((\<forall>i\<in>set its. position i = None) \<longrightarrow> (\<forall>c\<in>set cs'. no_overlap c))"
proof -
  let ?A = "set (filter (\<lambda>i. preassigned_target cs i \<noteq> None) its)"
  have v: "\<forall>c\<in>set cs. c_volume c \<noteq> 0" using assms(2) fresh_volume by blast
  from pack_items_result [OF assms(1) v, of ez dbg] obtain cs' r' ss
    where l: "pack_loop ez (cs,
              \<lparr>successful_placements = [], unplaced_items = [], container_stats = []\<rparr>)
              (sort_items its) = Inr (cs', r')"
      and p: "pack_items (mk_ThreeDimensionalPacking cs its dbg ez) =
             Inr (cs', r'\<lparr>container_stats := ss\<rparr>)"
    by blast
  have g0: "\<forall>c\<in>set cs. grid_consistent ?A c"
    using assms(2) fresh_grid_consistent by blast
  have g: "\<forall>c\<in>set cs'. grid_consistent ?A c"
    by (rule pack_loop_grid [OF assms(1) l _ g0]) simp
  have d: "\<forall>c\<in>set cs'. pairwise_disjoint (map item_cells (search_placed cs its c))"
    using g by (simp add: grid_consistent_def search_placed_def)
  have n: "(\<forall>i\<in>set its. position i = None) \<longrightarrow> (\<forall>c\<in>set cs'. no_overlap c)"
  proof
    assume a: "\<forall>i\<in>set its. position i = None"
    show "\<forall>c\<in>set cs'. no_overlap c"
      using d by (simp add: no_overlap_def no_preassigned_search_placed [OF a])
  qed
  show ?thesis
    by (rule exI [of _ cs'], rule exI [of _ "r'\<lparr>container_stats := ss\<rparr>"], intro conjI)
       (rule p d n)+
qed

theorem search_placed_no_overlap_witness:
  "item_ok unit_item \<and> item_ok urgent_item \<and> fresh_container deep_container \<and>
   position unit_item = None \<and> position urgent_item = None \<and>
   (\<exists>cs' r. pack_items
        (mk_ThreeDimensionalPacking [deep_container] [unit_item, urgent_item] False False)
        = Inr (cs', r) \<and>
      no_overlap (cs' ! 0) \<and> length (items (cs' ! 0)) = 2)"
proof -
  have a: "\<forall>i\<in>set [unit_item, urgent_item]. item_ok i"
    by (simp add: unit_item_ok urgent_item_ok)
  have b: "\<forall>c\<in>set [deep_container]. fresh_container c" by (simp add: deep_fresh)
  have n: "position unit_item = None" "position urgent_item = None"
    by (simp_all add: example_defs)
  from deep_two_run [of False] obtain r0
    where run: "pack_items
        (mk_ThreeDimensionalPacking [deep_container] [unit_item, urgent_item] False False)
        = Inr ([deep_after_both], r0)" ..
  from search_placed_no_overlap [OF a b, of False False] n
  have 1: "no_overlap deep_after_both" by (simp add: run)
  show ?thesis
    using 1 run n unit_item_ok urgent_item_ok deep_fresh
    by (simp add: deep_after_both_items)
qed


section \<open>The order of the placement attempts\<close>

text \<open>
  Claim C8. The packer holds the items sorted by priority descending, ties broken by
  expiry key ascending; the sorted list is a permutation of the input in which items of
  equal priority and expiry keep their input order. On fresh containers and well-formed
  items \<open>pack_items\<close> returns, and its result is reached by a sequence of states, one
  iteration of the loop body per item, item \<open>k\<close> of the sorted list being attempted in
  state \<open>k\<close>: the containers returned are those of the last state, and so are the
  success and unplaced entries. There is only one such sequence of states. Every item of
  the sorted list leaves exactly one entry, a success or an unplaced one, and both lists
  of entries follow the sorted order. The result depends on the input items only through
  the sorted list: two inputs that sort to the same list give identical results, whatever
  the debug flag.
\<close>

theorem items_order_fixed:
  assumes "\<forall>i\<in>set its. item_ok i" and "\<forall>c\<in>set cs. fresh_container c"
  shows "pk_items (mk_ThreeDimensionalPacking cs its dbg ez) = sort_items its \<and>
   sorted_wrt (\<lambda>a b. priority b < priority a \<or>
      (priority a = priority b \<and> expiry_date a \<le> expiry_date b)) (sort_items its) \<and>
   mset (sort_items its) = mset its \<and>
   (\<forall>k. filter (\<lambda>x. (priority x, expiry_date x) = k) (sort_items its) =
        filter (\<lambda>x. (priority x, expiry_date x) = k) its) \<and>
   (\<exists>cs' r sts bs.
      pack_items (mk_ThreeDimensionalPacking cs its dbg ez) = Inr (cs', r) \<and>
      length sts = length its + 1 \<and>
      sts ! 0 = (cs, \<lparr>successful_placements = [], unplaced_items = [], container_stats = []\<rparr>) \<and>
      (\<forall>k<length its. pack_item ez (sts ! k) (sort_items its ! k) = Inr (sts ! Suc k)) \<and>
      cs' = fst (sts ! length its) \<and>
      successful_placements r = successful_placements (snd (sts ! length its)) \<and>
      unplaced_items r = unplaced_items (snd (sts ! length its)) \<and>
      (\<forall>sts'. length sts' = length its + 1 \<and> sts' ! 0 = sts ! 0 \<and>
          (\<forall>k<length its. pack_item ez (sts' ! k) (sort_items its ! k) = Inr (sts' ! Suc k)) \<longrightarrow>
          sts' = sts) \<and>
      length bs = length its \<and>
      map p_item_id (successful_placements r) =
        map item_id (map fst (filter snd (zip (sort_items its) bs))) \<and>
      map u_item_id (unplaced_items r) =
        map item_id (map fst (filter (\<lambda>p. \<not> snd p) (zip (sort_items its) bs)))) \<and>
   (\<forall>its2 dbg2. sort_items its2 = sort_items its \<longrightarrow>
      pack_items (mk_ThreeDimensionalPacking cs its2 dbg2 ez) =
      pack_items (mk_ThreeDimensionalPacking cs its dbg ez))"
proof -
  let ?r0 = "\<lparr>successful_placements = [], unplaced_items = [], container_stats = []\<rparr>"
  have n: "length (sort_items its) = length its" by (simp add: sort_items_def)
  have v: "\<forall>c\<in>set cs. c_volume c \<noteq> 0" using assms(2) fresh_volume by blast
  have ok': "\<forall>i\<in>set (sort_items its). item_ok i" using assms(1) by simp
  from pack_items_result [OF assms(1) v, of ez dbg] obtain cs' r' ss
    where l: "pack_loop ez (cs, ?r0) (sort_items its) = Inr (cs', r')"
      and p: "pack_items (mk_ThreeDimensionalPacking cs its dbg ez) =
             Inr (cs', r'\<lparr>container_stats := ss\<rparr>)"
    by blast
  from pack_loop_states [OF l] n obtain sts where sts: "length sts = length its + 1"
    "sts ! 0 = (cs, ?r0)" "sts ! length its = (cs', r')"
    "\<forall>k<length its. pack_item ez (sts ! k) (sort_items its ! k) = Inr (sts ! Suc k)"
    by auto
  from pack_loop_mask [OF ok' l] n obtain bs where bs: "length bs = length its"
    "map p_item_id (successful_placements r') =
        map item_id (map fst (filter snd (zip (sort_items its) bs)))"
    "map u_item_id (unplaced_items r') =
        map item_id (map fst (filter (\<lambda>p. \<not> snd p) (zip (sort_items its) bs)))"
    by auto
  have uniq: "\<forall>sts'. length sts' = length its + 1 \<and> sts' ! 0 = sts ! 0 \<and>
          (\<forall>k<length its. pack_item ez (sts' ! k) (sort_items its ! k) = Inr (sts' ! Suc k)) \<longrightarrow>
          sts' = sts"
  proof (intro allI impI)
    fix sts'
    assume a: "length sts' = length its + 1 \<and> sts' ! 0 = sts ! 0 \<and>
          (\<forall>k<length its. pack_item ez (sts' ! k) (sort_items its ! k) = Inr (sts' ! Suc k))"
    show "sts' = sts"
      by (rule attempt_states_unique [where xs = "sort_items its" and ez = ez])
         (use a sts n in simp_all)
  qed
  have run: "\<exists>cs' r sts bs.
      pack_items (mk_ThreeDimensionalPacking cs its dbg ez) = Inr (cs', r) \<and>
      length sts = length its + 1 \<and>
      sts ! 0 = (cs, ?r0) \<and>
      (\<forall>k<length its. pack_item ez (sts ! k) (sort_items its ! k) = Inr (sts ! Suc k)) \<and>
      cs' = fst (sts ! length its) \<and>
      successful_placements r = successful_placements (snd (sts ! length its)) \<and>
      unplaced_items r = unplaced_items (snd (sts ! length its)) \<and>
      (\<forall>sts'. length sts' = length its + 1 \<and> sts' ! 0 = sts ! 0 \<and>
          (\<forall>k<length its. pack_item ez (sts' ! k) (sort_items its ! k) = Inr (sts' ! Suc k)) \<longrightarrow>
          sts' = sts) \<and>
      length bs = length its \<and>
      map p_item_id (successful_placements r) =
        map item_id (map fst (filter snd (zip (sort_items its) bs))) \<and>
      map u_item_id (unplaced_items r) =
        map item_id (map fst (filter (\<lambda>p. \<not> snd p) (zip (sort_items its) bs)))"
  proof -
    have f: "cs' = fst (sts ! length its)"
      "successful_placements (r'\<lparr>container_stats := ss\<rparr>) =
         successful_placements (snd (sts ! length its))"
      "unplaced_items (r'\<lparr>container_stats := ss\<rparr>) = unplaced_items (snd (sts ! length its))"
      "map p_item_id (successful_placements (r'\<lparr>container_stats := ss\<rparr>)) =
        map item_id (map fst (filter snd (zip (sort_items its) bs)))"
      "map u_item_id (unplaced_items (r'\<lparr>container_stats := ss\<rparr>)) =
        map item_id (map fst (filter (\<lambda>p. \<not> snd p) (zip (sort_items its) bs)))"
      using sts(3) bs(2,3) by simp_all
    show ?thesis
      by (rule exI [of _ cs'], rule exI [of _ "r'\<lparr>container_stats := ss\<rparr>"],
          rule exI [of _ sts], rule exI [of _ bs], intro conjI)
         (rule p sts(1) sts(2) sts(4) f uniq bs(1))+
  qed
  have det: "\<forall>its2 dbg2. sort_items its2 = sort_items its \<longrightarrow>
      pack_items (mk_ThreeDimensionalPacking cs its2 dbg2 ez) =
      pack_items (mk_ThreeDimensionalPacking cs its dbg ez)"
    using pack_items_sorted_input by blast
  have pk: "pk_items (mk_ThreeDimensionalPacking cs its dbg ez) = sort_items its"
    by (simp add: mk_ThreeDimensionalPacking_def)
  have st: "\<forall>k. filter (\<lambda>x. (priority x, expiry_date x) = k) (sort_items its) =
        filter (\<lambda>x. (priority x, expiry_date x) = k) its"
    by (simp add: sort_items_stable)
  show ?thesis
    by (intro conjI) (rule pk sort_items_sorted sort_items_mset st run det)+
qed

theorem items_order_fixed_witness:
  "item_ok unit_item \<and> item_ok urgent_item \<and> fresh_container deep_container \<and>
   pk_items (mk_ThreeDimensionalPacking [deep_container] [unit_item, urgent_item] False False) =
     [urgent_item, unit_item] \<and>
   priority unit_item < priority urgent_item \<and>
   (\<exists>cs' r. pack_items
        (mk_ThreeDimensionalPacking [deep_container] [unit_item, urgent_item] False False) =
        Inr (cs', r) \<and>
      map p_item_id (successful_placements r) = [item_id urgent_item, item_id unit_item] \<and>
      unplaced_items r = []) \<and>
   sort_items [urgent_item, unit_item] = sort_items [unit_item, urgent_item] \<and>
   pack_items (mk_ThreeDimensionalPacking [deep_container] [urgent_item, unit_item] True False) =
   pack_items (mk_ThreeDimensionalPacking [deep_container] [unit_item, urgent_item] False False)"
proof -
  have a: "\<forall>i\<in>set [unit_item, urgent_item]. item_ok i"
    by (simp add: unit_item_ok urgent_item_ok)
  have b: "\<forall>c\<in>set [deep_container]. fresh_container c" by (simp add: deep_fresh)
  note t = items_order_fixed [OF a b, of False False]
  have s: "sort_items [urgent_item, unit_item] = sort_items [unit_item, urgent_item]"
    by (simp add: sort_items_def example_defs)
  have pk: "pk_items
      (mk_ThreeDimensionalPacking [deep_container] [unit_item, urgent_item] False False) =
     [urgent_item, unit_item]"
    using t [THEN conjunct1] by (simp add: sort_two)
  have d: "pack_items
      (mk_ThreeDimensionalPacking [deep_container] [urgent_item, unit_item] True False) =
     pack_items (mk_ThreeDimensionalPacking [deep_container] [unit_item, urgent_item] False False)"
    by (rule t [THEN conjunct2, THEN conjunct2, THEN conjunct2, THEN conjunct2, THEN conjunct2,
        rule_format, OF s])
  have ids: "item_id urgent_item = ''i2''" "item_id unit_item = ''i1''"
    "priority unit_item < priority urgent_item"
    by (simp_all add: example_defs)
  from deep_two_records [of False] ids
  have r: "\<exists>cs' r. pack_items
        (mk_ThreeDimensionalPacking [deep_container] [unit_item, urgent_item] False False) =
        Inr (cs', r) \<and>
      map p_item_id (successful_placements r) = [item_id urgent_item, item_id unit_item] \<and>
      unplaced_items r = []" by auto
  show ?thesis
    by (intro conjI) (rule pk d r s ids(3) unit_item_ok urgent_item_ok deep_fresh)+
qed



section \<open>Pre-assigned positions\<close>

text \<open>
  Claim C10. On fresh containers and well-formed items \<open>pack_items\<close> returns, and for every
  input item that carries a position \<open>p\<close>: if container \<open>k\<close> is the first in list order
  whose real-unit bounds contain \<open>p\<close> plus the item's extent, then after the run the item
  is in the list of container \<open>k\<close> and a success entry with the item's id, that
  container's id, the position \<open>p\<close> and the item's dimensions is recorded, whatever the
  zones and whether or not zones are enforced. The items attached in this way mark no
  cell and take no volume: the run leaves in every container the grid and the available
  volume that the run without these items leaves, its list of items is the list of that
  run together with the items attached to it, the success entries are those of that run
  together with one entry for each attached item, and the unplaced entries are the same.
  An item whose position no container's bounds contain goes through the ordinary search
  among the candidate containers, as an item without a position does: removing these
  positions from the input changes neither the containers nor the result.
\<close>

theorem preassigned_passthrough:
  assumes "\<forall>i\<in>set its. item_ok i" and "\<forall>c\<in>set cs. fresh_container c"
  shows "\<exists>cs' r cs0 r0.
     pack_items (mk_ThreeDimensionalPacking cs its dbg ez) = Inr (cs', r) \<and>
     pack_items (mk_ThreeDimensionalPacking cs
        (filter (\<lambda>i. preassigned_target cs i = None) its) dbg ez) = Inr (cs0, r0) \<and>
     length cs' = length cs \<and> length cs0 = length cs \<and>
     (\<forall>i\<in>set its. \<forall>k p.
        position i = Some p \<and> k < length cs \<and> position_fits (cs ! k) i p \<and>
        (\<forall>j<k. \<not> position_fits (cs ! j) i p) \<longrightarrow>
        preassigned_target cs i = Some k \<and>
        i \<in> set (items (cs' ! k)) \<and>
        \<lparr>p_item_id = item_id i, p_container_id = container_id (cs ! k),
          p_position = p, p_dimensions = (width i, depth i, height i)\<rparr>
          \<in> set (successful_placements r)) \<and>
     (\<forall>i\<in>set its.
        position i = None \<or>
        (\<exists>p. position i = Some p \<and> (\<forall>j<length cs. \<not> position_fits (cs ! j) i p)) \<longrightarrow>
        preassigned_target cs i = None) \<and>
     (\<forall>k<length cs.
        mset (items (cs' ! k)) =
          mset (items (cs0 ! k)) + mset (filter (\<lambda>i. preassigned_target cs i = Some k) its) \<and>
        space (cs' ! k) = space (cs0 ! k) \<and>
        available_volume (cs' ! k) = available_volume (cs0 ! k)) \<and>
     mset (successful_placements r) =
       mset (successful_placements r0) + mset (attached_entries cs its) \<and>
     unplaced_items r = unplaced_items r0 \<and>
     pack_items (mk_ThreeDimensionalPacking cs
        (map (\<lambda>i. if preassigned_target cs i = None then i\<lparr>position := None\<rparr> else i) its)
        dbg ez) = Inr (cs', r)"
proof -
  let ?r0 = "\<lparr>successful_placements = [], unplaced_items = [], container_stats = []\<rparr>"
  let ?stats = "map (\<lambda>c. \<lparr>s_container_id = container_id c, s_zone = zone c,
                s_items_placed = length (items c),
                s_volume_utilization = (1 - available_volume c / c_volume c) * 100,
                s_available_volume = available_volume c,
                s_total_volume = c_volume c\<rparr>)"
  have v: "\<forall>c\<in>set cs. c_volume c \<noteq> 0" using assms(2) fresh_volume by blast
  have ok': "\<forall>i\<in>set (sort_items its). item_ok i" using assms(1) by simp
  from pack_loop_filtered [OF ok', of ez cs ?r0] obtain cs1 r1 cs2 r2 where
    l1: "pack_loop ez (cs, ?r0) (sort_items its) = Inr (cs1, r1)" and
    l2: "pack_loop ez (cs, ?r0)
          (filter (\<lambda>i. preassigned_target cs i = None) (sort_items its)) = Inr (cs2, r2)" and
    f1: "map frame cs1 = map frame cs" and
    g: "map grid_view cs2 = map grid_view cs1" and
    it: "\<forall>k<length cs. mset (items (cs1 ! k)) =
        mset (items (cs2 ! k)) +
        mset (filter (\<lambda>i. preassigned_target cs i = Some k) (sort_items its))" and
    su: "mset (successful_placements r1) =
       mset (successful_placements r2) + mset (attached_entries cs (sort_items its))" and
    un: "unplaced_items r1 = unplaced_items r2"
    by blast
  have l2': "pack_loop ez (cs, ?r0)
          (sort_items (filter (\<lambda>i. preassigned_target cs i = None) its)) = Inr (cs2, r2)"
    using l2 by (simp only: sort_items_filter)
  have f2: "map frame cs2 = map frame cs" using grid_view_map_frame [OF g] f1 by simp
  have len1: "length cs1 = length cs" by (rule frame_length [OF f1])
  have len2: "length cs2 = length cs" by (rule frame_length [OF f2])
  have v1: "\<forall>c\<in>set cs1. c_volume c \<noteq> 0" by (rule volumes_nonzero_frame [OF f1 v])
  have v2: "\<forall>c\<in>set cs2. c_volume c \<noteq> 0" by (rule volumes_nonzero_frame [OF f2 v])
  have p1: "pack_items (mk_ThreeDimensionalPacking cs its dbg ez) =
      Inr (cs1, r1\<lparr>container_stats := ?stats cs1\<rparr>)"
    by (rule pack_items_eval [OF l1 container_statistics_eq [OF v1]])
  have p2: "pack_items (mk_ThreeDimensionalPacking cs
        (filter (\<lambda>i. preassigned_target cs i = None) its) dbg ez) =
      Inr (cs2, r2\<lparr>container_stats := ?stats cs2\<rparr>)"
    by (rule pack_items_eval [OF l2' container_statistics_eq [OF v2]])
  have p3: "pack_items (mk_ThreeDimensionalPacking cs
        (map (\<lambda>i. if preassigned_target cs i = None then i\<lparr>position := None\<rparr> else i) its)
        dbg ez) = Inr (cs1, r1\<lparr>container_stats := ?stats cs1\<rparr>)"
    by (simp only: pack_items_unfit [OF assms(1)] p1)
  have ms: "mset (filter Q (sort_items its)) = mset (filter Q its)" for Q
    by (simp add: sort_items_mset)
  have su': "mset (successful_placements (r1\<lparr>container_stats := ?stats cs1\<rparr>)) =
       mset (successful_placements (r2\<lparr>container_stats := ?stats cs2\<rparr>)) +
       mset (attached_entries cs its)"
    using su attached_entries_mset [OF sort_items_mset, of cs its] by simp
  have un': "unplaced_items (r1\<lparr>container_stats := ?stats cs1\<rparr>) =
       unplaced_items (r2\<lparr>container_stats := ?stats cs2\<rparr>)"
    using un by simp
  have G: "\<forall>k<length cs.
        mset (items (cs1 ! k)) =
          mset (items (cs2 ! k)) + mset (filter (\<lambda>i. preassigned_target cs i = Some k) its) \<and>
        space (cs1 ! k) = space (cs2 ! k) \<and>
        available_volume (cs1 ! k) = available_volume (cs2 ! k)"
  proof (intro allI impI)
    fix k
    assume k: "k < length cs"
    with len1 have "k < length cs1" by simp
    from grid_view_nth [OF g this]
    have "space (cs1 ! k) = space (cs2 ! k)"
      "available_volume (cs1 ! k) = available_volume (cs2 ! k)"
      by (simp_all add: grid_view_def)
    moreover from it k have "mset (items (cs1 ! k)) =
          mset (items (cs2 ! k)) + mset (filter (\<lambda>i. preassigned_target cs i = Some k) its)"
      by (simp only: ms)
    ultimately show "mset (items (cs1 ! k)) =
          mset (items (cs2 ! k)) + mset (filter (\<lambda>i. preassigned_target cs i = Some k) its) \<and>
        space (cs1 ! k) = space (cs2 ! k) \<and>
        available_volume (cs1 ! k) = available_volume (cs2 ! k)" by simp
  qed
  have A: "\<forall>i\<in>set its. \<forall>k p.
        position i = Some p \<and> k < length cs \<and> position_fits (cs ! k) i p \<and>
        (\<forall>j<k. \<not> position_fits (cs ! j) i p) \<longrightarrow>
        preassigned_target cs i = Some k \<and>
        i \<in> set (items (cs1 ! k)) \<and>
        \<lparr>p_item_id = item_id i, p_container_id = container_id (cs ! k),
          p_position = p, p_dimensions = (width i, depth i, height i)\<rparr>
          \<in> set (successful_placements (r1\<lparr>container_stats := ?stats cs1\<rparr>))"
  proof (intro ballI allI impI)
    fix i k p
    assume i: "i \<in> set its"
      and a: "position i = Some p \<and> k < length cs \<and> position_fits (cs ! k) i p \<and>
        (\<forall>j<k. \<not> position_fits (cs ! j) i p)"
    then have fc: "find_container cs i p = Some k" by (simp add: find_container_Some_iff)
    with a have t: "preassigned_target cs i = Some k" by (simp add: preassigned_target_def)
    from i t have "i \<in># mset (filter (\<lambda>i. preassigned_target cs i = Some k) its)" by simp
    with G a have "i \<in># mset (items (cs1 ! k))" by simp
    then have m: "i \<in> set (items (cs1 ! k))" by simp
    from a have pp: "position i = Some p" by simp
    from attached_entry_member [OF i pp fc]
    have "mk_placement i (cs ! k) p \<in># mset (attached_entries cs its)" by simp
    with su' have "mk_placement i (cs ! k) p \<in>#
        mset (successful_placements (r1\<lparr>container_stats := ?stats cs1\<rparr>))" by simp
    then have e: "\<lparr>p_item_id = item_id i, p_container_id = container_id (cs ! k),
          p_position = p, p_dimensions = (width i, depth i, height i)\<rparr>
          \<in> set (successful_placements (r1\<lparr>container_stats := ?stats cs1\<rparr>))"
      by (simp add: mk_placement_def)
    from t m e show "preassigned_target cs i = Some k \<and>
        i \<in> set (items (cs1 ! k)) \<and>
        \<lparr>p_item_id = item_id i, p_container_id = container_id (cs ! k),
          p_position = p, p_dimensions = (width i, depth i, height i)\<rparr>
          \<in> set (successful_placements (r1\<lparr>container_stats := ?stats cs1\<rparr>))"
      by (intro conjI)
  qed
  have N: "\<forall>i\<in>set its.
        position i = None \<or>
        (\<exists>p. position i = Some p \<and> (\<forall>j<length cs. \<not> position_fits (cs ! j) i p)) \<longrightarrow>
        preassigned_target cs i = None"
    by (simp only: preassigned_target_None_iff) simp
  show ?thesis
    by (rule exI [of _ cs1], rule exI [of _ "r1\<lparr>container_stats := ?stats cs1\<rparr>"],
        rule exI [of _ cs2], rule exI [of _ "r2\<lparr>container_stats := ?stats cs2\<rparr>"],
        intro conjI)
       (rule p1 p2 len1 len2 A N G su' un' p3)+
qed

theorem preassigned_passthrough_witness:
  "item_ok preset_item \<and> fresh_container zoneB_container \<and>
   position preset_item = Some (0, 0, 0) \<and>
   position_fits zoneB_container preset_item (0, 0, 0) \<and>
   \<not> zone_matches zoneB_container preset_item \<and>
   (\<exists>cs' r. pack_items (mk_ThreeDimensionalPacking [zoneB_container] [preset_item] False True) =
        Inr (cs', r) \<and>
      preset_item \<in> set (items (cs' ! 0)) \<and>
      \<lparr>p_item_id = ''i1'', p_container_id = ''cB'', p_position = (0, 0, 0),
        p_dimensions = (1, 1, 1)\<rparr> \<in> set (successful_placements r) \<and>
      space (cs' ! 0) = {} \<and> available_volume (cs' ! 0) = 1 \<and> unplaced_items r = []) \<and>
   item_ok far_item \<and> fresh_container unit_container \<and>
   position far_item = Some (5, 0, 0) \<and>
   \<not> position_fits unit_container far_item (5, 0, 0) \<and>
   pack_items (mk_ThreeDimensionalPacking [unit_container] [far_item] False True) =
   pack_items (mk_ThreeDimensionalPacking [unit_container] [unit_item] False True) \<and>
   (\<exists>r. pack_items (mk_ThreeDimensionalPacking [unit_container] [far_item] False True) =
      Inr ([placed_container unit_container unit_item (0, 0, 0)], r) \<and>
      map p_position (successful_placements r) = [(0, 0, 0)])"
proof -
  have a: "\<forall>i\<in>set [preset_item]. item_ok i" by (simp add: preset_item_ok)
  have b: "\<forall>c\<in>set [zoneB_container]. fresh_container c" by (simp add: zoneB_fresh)
  have p: "position preset_item = Some (0, 0, 0)" by (simp add: preset_item_def)
  have f: "position_fits zoneB_container preset_item (0, 0, 0)"
    by (simp add: position_fits_def preset_defs)
  have t: "preassigned_target [zoneB_container] preset_item = Some 0"
    by (simp add: preassigned_target_def p find_container_single f)
  from preassigned_passthrough [OF a b, of False True] obtain cs' r cs0 r0 where
    1: "pack_items (mk_ThreeDimensionalPacking [zoneB_container] [preset_item] False True) =
        Inr (cs', r)" and
    2: "pack_items (mk_ThreeDimensionalPacking [zoneB_container]
        (filter (\<lambda>i. preassigned_target [zoneB_container] i = None) [preset_item]) False True) =
        Inr (cs0, r0)" and
    3: "\<forall>i\<in>set [preset_item]. \<forall>k p.
        position i = Some p \<and> k < length [zoneB_container] \<and>
        position_fits ([zoneB_container] ! k) i p \<and>
        (\<forall>j<k. \<not> position_fits ([zoneB_container] ! j) i p) \<longrightarrow>
        preassigned_target [zoneB_container] i = Some k \<and>
        i \<in> set (items (cs' ! k)) \<and>
        \<lparr>p_item_id = item_id i, p_container_id = container_id ([zoneB_container] ! k),
          p_position = p, p_dimensions = (width i, depth i, height i)\<rparr>
          \<in> set (successful_placements r)" and
    4: "\<forall>k<length [zoneB_container].
        mset (items (cs' ! k)) =
          mset (items (cs0 ! k)) +
          mset (filter (\<lambda>i. preassigned_target [zoneB_container] i = Some k) [preset_item]) \<and>
        space (cs' ! k) = space (cs0 ! k) \<and>
        available_volume (cs' ! k) = available_volume (cs0 ! k)" and
    5: "unplaced_items r = unplaced_items r0"
    by (elim exE conjE)
  from 2 t zoneB_empty_run [of False True]
  have c0: "cs0 = [zoneB_container]" "unplaced_items r0 = []" by auto
  from 3 p f have m: "preset_item \<in> set (items (cs' ! 0))"
    "\<lparr>p_item_id = item_id preset_item, p_container_id = container_id zoneB_container,
      p_position = (0, 0, 0),
      p_dimensions = (width preset_item, depth preset_item, height preset_item)\<rparr>
      \<in> set (successful_placements r)"
    by auto
  from m(2) have e: "\<lparr>p_item_id = ''i1'', p_container_id = ''cB'', p_position = (0, 0, 0),
        p_dimensions = (1, 1, 1)\<rparr> \<in> set (successful_placements r)"
    by (simp add: preset_defs)
  from 4 c0 have s: "space (cs' ! 0) = {}" "available_volume (cs' ! 0) = 1"
    by (simp_all add: zoneB_container_def mk_Container_def)
  from 5 c0 have u: "unplaced_items r = []" by simp
  have first: "\<exists>cs' r.
      pack_items (mk_ThreeDimensionalPacking [zoneB_container] [preset_item] False True) =
        Inr (cs', r) \<and>
      preset_item \<in> set (items (cs' ! 0)) \<and>
      \<lparr>p_item_id = ''i1'', p_container_id = ''cB'', p_position = (0, 0, 0),
        p_dimensions = (1, 1, 1)\<rparr> \<in> set (successful_placements r) \<and>
      space (cs' ! 0) = {} \<and> available_volume (cs' ! 0) = 1 \<and> unplaced_items r = []"
    by (rule exI [of _ cs'], rule exI [of _ r], intro conjI) (rule 1 m(1) e s u)+
  have a2: "\<forall>i\<in>set [far_item]. item_ok i" by (simp add: preset_item_ok)
  have b2: "\<forall>c\<in>set [unit_container]. fresh_container c" by (simp add: unit_fresh)
  have q: "position far_item = Some (5, 0, 0)" by (simp add: far_item_def)
  have g: "\<not> position_fits unit_container far_item (5, 0, 0)"
    by (simp add: position_fits_def preset_defs)
  have t2: "preassigned_target [unit_container] far_item = None"
    by (simp add: preassigned_target_def q find_container_single g)
  have st: "far_item\<lparr>position := None\<rparr> = unit_item"
    by (simp add: far_item_def unit_item_def mk_Item_def)
  from preassigned_passthrough [OF a2 b2, of False True] obtain cs2 r2 where
    6: "pack_items (mk_ThreeDimensionalPacking [unit_container] [far_item] False True) =
        Inr (cs2, r2)" and
    7: "pack_items (mk_ThreeDimensionalPacking [unit_container]
        (map (\<lambda>i. if preassigned_target [unit_container] i = None
                  then i\<lparr>position := None\<rparr> else i) [far_item]) False True) = Inr (cs2, r2)"
    by (elim exE conjE)
  from 7 have "pack_items (mk_ThreeDimensionalPacking [unit_container] [unit_item] False True) =
      Inr (cs2, r2)" by (simp add: t2 st)
  with 6 have same:
    "pack_items (mk_ThreeDimensionalPacking [unit_container] [far_item] False True) =
     pack_items (mk_ThreeDimensionalPacking [unit_container] [unit_item] False True)" by simp
  from unit_search_run [of False True] same
  have second: "\<exists>r. pack_items (mk_ThreeDimensionalPacking [unit_container] [far_item] False True) =
      Inr ([placed_container unit_container unit_item (0, 0, 0)], r) \<and>
      map p_position (successful_placements r) = [(0, 0, 0)]" by simp
  show ?thesis
    by (intro conjI)
       (rule preset_item_ok(1) zoneB_fresh p f zoneB_mismatch first preset_item_ok(3) unit_fresh
         q g same second)+
qed



end
